theory Spec2Isabelle
  imports Main "HOL-Library.AList" "HOL-Library.Product_Lexorder" "HOL-Library.Char_ord"
    "HOL-Library.List_Lexorder"
begin

section \<open>Atlas packer (tools/pack\_atlases.py)\<close>

subsection \<open>Data model\<close>

text \<open>
  A sprite is known to the packer by its key (the file stem) and by the size of the image
  loaded for it; pixel buffers are opaque. PIL image sizes are non-negative, hence
  \<open>nat\<close>. A Python dict is an association list that is only ever changed with
  \<open>AList.update\<close>: an existing key keeps its position and gets the new value, a new key
  goes to the end, which is the enumeration order of a Python dict.
\<close>

type_synonym key = string

type_synonym color = "nat \<times> nat \<times> nat \<times> nat"

record image =
  width :: nat
  height :: nat

text \<open>The dict \<open>{"x": .., "y": .., "w": .., "h": ..}\<close> stored per placed key.\<close>

record rect =
  rect_x :: nat
  rect_y :: nat
  rect_w :: nat
  rect_h :: nat

text \<open>
  \<open>Image.new("RGBA", (width, height), fill)\<close> followed by \<open>paste\<close> calls: the canvas
  keeps its size, its fill colour and the pastes in the order they were made, each with the
  name of what was pasted and the pixel origin.
\<close>

record ('a, 'p) canvas = image +
  fill :: color
  pastes :: "('a \<times> 'p \<times> 'p) list"

type_synonym atlas = "(key, nat) canvas \<times> (key \<times> rect) list"

text \<open>The lines the tool prints.\<close>

datatype line =
    WARNING key nat nat
  | ERROR nat
  | SkippingNotFound string
  | SkippingNoSprites string
  | Packing nat string
  | Arrow string nat nat nat
  | Text string

datatype error = KeyError key | IndexError | ZeroDivisionError | ValueError | FileNotFoundError

definition MAX_ATLAS_SIZE :: nat where
  "MAX_ATLAS_SIZE = 4096"

subsection \<open>One pass of the shelf packer\<close>

text \<open>The local variables of one iteration of the \<open>while\<close> loop, and standard output.\<close>

record pass_state =
  rects :: "(key \<times> rect) list"
  cur_x :: nat
  cur_y :: nat
  row_height :: nat
  atlas_width :: nat
  atlas_height :: nat
  placed :: "key list"
  printed :: "line list"

definition fresh_pass :: "line list \<Rightarrow> pass_state" where
  "fresh_pass out =
     \<lparr>rects = [], cur_x = 0, cur_y = 0, row_height = 0, atlas_width = 0, atlas_height = 0,
      placed = [], printed = out\<rparr>"

text \<open>
  The six statements that store a rectangle at the cursor (source lines 72--77, and again
  88--93).
\<close>

definition put :: "pass_state \<Rightarrow> key \<Rightarrow> nat \<Rightarrow> nat \<Rightarrow> pass_state" where
  "put st k w h =
     (let rh = max (row_height st) h;
          cx = cur_x st + w
      in st\<lparr>rects := AList.update k
                 \<lparr>rect_x = cur_x st, rect_y = cur_y st, rect_w = w, rect_h = h\<rparr> (rects st),
            row_height := rh,
            cur_x := cx,
            atlas_width := max (atlas_width st) cx,
            atlas_height := max (atlas_height st) (cur_y st + rh),
            placed := placed st @ [k]\<rparr>)"

text \<open>
  The body of the \<open>for\<close> loop for one key whose image is \<open>img\<close>; \<open>M\<close> is the value of
  the module constant \<open>MAX_ATLAS_SIZE\<close>.
\<close>

definition body :: "nat \<Rightarrow> pass_state \<Rightarrow> key \<Rightarrow> image \<Rightarrow> pass_state" where
  "body M st k img =
     (let w = width img; h = height img in
      if w > M \<or> h > M then
        st\<lparr>printed := printed st @ [WARNING k w h], placed := placed st @ [k]\<rparr>
      else if cur_x st + w \<le> M then
        (if cur_y st + h > M then st else put st k w h)
      else
        (let st' = st\<lparr>cur_x := 0, cur_y := cur_y st + row_height st, row_height := 0\<rparr>
         in if cur_y st' + h > M then st' else put st' k w h))"

text \<open>\<open>for key in remaining\<close>; the lookup \<open>images[key]\<close> raises on a missing key.\<close>

fun for_loop :: "nat \<Rightarrow> (key \<times> image) list \<Rightarrow> pass_state \<Rightarrow> key list \<Rightarrow> error + pass_state" where
  "for_loop M images st [] = Inr st"
| "for_loop M images st (k # ks) =
     (case map_of images k of
        None \<Rightarrow> Inl (KeyError k)
      | Some img \<Rightarrow> for_loop M images (body M st k img) ks)"

text \<open>The atlas image: a transparent canvas of the running bounding box with every rect's sprite pasted.\<close>

definition atlas_img :: "pass_state \<Rightarrow> (key, nat) canvas" where
  "atlas_img st =
     \<lparr>width = atlas_width st, height = atlas_height st, fill = (0, 0, 0, 0),
      pastes = map (\<lambda>(k, r). (k, rect_x r, rect_y r)) (rects st)\<rparr>"

lemma placed_body: "set (placed (body M st k img)) \<subseteq> insert k (set (placed st))"
  by (auto simp: body_def put_def Let_def)

lemma placed_for_loop:
  "for_loop M images st ks = Inr st' \<Longrightarrow> set (placed st') \<subseteq> set (placed st) \<union> set ks"
proof (induction ks arbitrary: st)
  case Nil
  then show ?case by simp
next
  case (Cons k ks)
  then obtain img where img: "map_of images k = Some img"
    and run: "for_loop M images (body M st k img) ks = Inr st'"
    by (auto split: option.splits)
  from Cons.IH [OF run] placed_body [of M st k img] show ?case by auto
qed

subsection \<open>The \<open>while\<close> loop and \<open>pack_atlas\<close>\<close>

function pack_loop ::
  "nat \<Rightarrow> (key \<times> image) list \<Rightarrow> key list \<Rightarrow> atlas list \<Rightarrow> line list
     \<Rightarrow> error + (atlas list \<times> line list)" where
  "pack_loop M images remaining atlases out =
     (if remaining = [] then Inr (atlases, out)
      else case for_loop M images (fresh_pass out) remaining of
        Inl e \<Rightarrow> Inl e
      | Inr st \<Rightarrow>
          if placed st = [] then Inr (atlases, printed st @ [ERROR (length remaining)])
          else pack_loop M images [k \<leftarrow> remaining. k \<notin> set (placed st)]
                 (atlases @ [(atlas_img st, rects st)]) (printed st))"
  by pat_completeness auto
termination
proof (relation "measure (\<lambda>(M, images, remaining, atlases, out). length remaining)")
  show "wf (measure (\<lambda>(M, images, remaining, atlases, out). length remaining))" by simp
next
  fix M :: nat and images :: "(key \<times> image) list" and remaining :: "key list"
    and atlases :: "atlas list" and out :: "line list" and st :: pass_state
  assume run: "for_loop M images (fresh_pass out) remaining = Inr st"
    and ne: "placed st \<noteq> []"
  from ne obtain k where k: "k \<in> set (placed st)" by (cases "placed st") auto
  with placed_for_loop [OF run] have "k \<in> set remaining" by (auto simp: fresh_pass_def)
  with k have "length [k \<leftarrow> remaining. k \<notin> set (placed st)] < length remaining"
    by (intro length_filter_less) auto
  then show "((M, images, [k \<leftarrow> remaining. k \<notin> set (placed st)],
               atlases @ [(atlas_img st, rects st)], printed st),
              (M, images, remaining, atlases, out))
             \<in> measure (\<lambda>(M, images, remaining, atlases, out). length remaining)"
    by simp
qed

text \<open>
  Lines 39--47: the images dict is filled in the order of \<open>sprites.items()\<close>, and its keys
  are sorted (stably, as Python's \<open>sorted\<close> does) by \<open>(-height, -width)\<close>. The sort key of
  \<open>k\<close> reads nothing but \<open>images[k]\<close>, so the items are sorted and their keys taken.
\<close>

definition load_images :: "(key \<times> image) list \<Rightarrow> (key \<times> image) list" where
  "load_images sprites = fold (\<lambda>(k, img) images. AList.update k img images) sprites []"

definition sort_rank :: "image \<Rightarrow> int \<times> int" where
  "sort_rank img = (- int (height img), - int (width img))"

definition sorted_keys :: "(key \<times> image) list \<Rightarrow> key list" where
  "sorted_keys images = map fst (sort_key (\<lambda>(k, img). sort_rank img) images)"

definition pack_atlas :: "nat \<Rightarrow> (key \<times> image) list \<Rightarrow> error + (atlas list \<times> line list)" where
  "pack_atlas M sprites =
     (let images = load_images sprites
      in pack_loop M images (sorted_keys images) [] [])"

subsection \<open>Facts about one pass\<close>

lemma update_fresh: "k \<notin> fst ` set al \<Longrightarrow> AList.update k v al = al @ [(k, v)]"
  by (induction al) auto

lemma update_set: "set (AList.update k v al) \<subseteq> insert (k, v) (set al)"
  by (induction al) auto

lemma for_loop_rule:
  assumes "for_loop M images st ks = Inr st'"
    and "P st ks"
    and "\<And>st k ks img. P st (k # ks) \<Longrightarrow> map_of images k = Some img \<Longrightarrow> P (body M st k img) ks"
  shows "P st' []"
  using assms(1,2)
proof (induction ks arbitrary: st)
  case Nil
  then show ?case by simp
next
  case (Cons k ks)
  then obtain img where img: "map_of images k = Some img"
    and run: "for_loop M images (body M st k img) ks = Inr st'"
    by (auto split: option.splits)
  from assms(3) [OF Cons.prems(2) img] Cons.IH [OF run] show ?case by blast
qed

lemma for_loop_total:
  "set ks \<subseteq> fst ` set images \<Longrightarrow> \<exists>st'. for_loop M images st ks = Inr st'"
proof (induction ks arbitrary: st)
  case Nil
  then show ?case by simp
next
  case (Cons k ks)
  then have "k \<in> fst ` set images" by simp
  then obtain img where "map_of images k = Some img"
    by (metis domD dom_map_of_conv_image_fst)
  with Cons show ?case by simp
qed

lemma placed_body_mono: "set (placed st) \<subseteq> set (placed (body M st k img))"
  by (auto simp: body_def put_def Let_def)

lemma placed_for_loop_mono:
  assumes "for_loop M images st ks = Inr st'"
  shows "set (placed st) \<subseteq> set (placed st')"
proof -
  have "set (placed st) \<subseteq> set (placed st')"
    by (rule for_loop_rule [OF assms, where P = "\<lambda>s ks. set (placed st) \<subseteq> set (placed s)"])
       (use placed_body_mono in blast)+
  then show ?thesis .
qed

lemma first_placed: "k \<in> set (placed (body M (fresh_pass out) k img))"
  by (auto simp: body_def put_def fresh_pass_def Let_def)

lemma pass_places_first:
  assumes "for_loop M images (fresh_pass out) (k # ks) = Inr st"
  shows "k \<in> set (placed st)"
proof -
  from assms obtain img where "for_loop M images (body M (fresh_pass out) k img) ks = Inr st"
    by (auto split: option.splits)
  from placed_for_loop_mono [OF this] first_placed show ?thesis by blast
qed

subsection \<open>Facts about the while loop\<close>

definition height_of :: "(key \<times> image) list \<Rightarrow> key \<Rightarrow> nat" where
  "height_of images k = (case map_of images k of Some img \<Rightarrow> height img | None \<Rightarrow> 0)"

definition well_formed :: "(key \<times> image) list \<Rightarrow> key list \<Rightarrow> bool" where
  "well_formed images remaining \<longleftrightarrow>
     set remaining \<subseteq> fst ` set images \<and> distinct remaining \<and>
     sorted_wrt (\<lambda>a b. height_of images b \<le> height_of images a) remaining"

lemma well_formed_filter:
  "well_formed images remaining \<Longrightarrow> well_formed images (filter P remaining)"
  by (auto simp: well_formed_def sorted_wrt_filter)

lemma pack_loop_rule:
  assumes "pack_loop M images remaining atlases out = Inr (res, out')"
    and "well_formed images remaining"
    and "I remaining atlases out"
    and step: "\<And>remaining atlases out st.
      remaining \<noteq> [] \<Longrightarrow> well_formed images remaining \<Longrightarrow> I remaining atlases out \<Longrightarrow>
      for_loop M images (fresh_pass out) remaining = Inr st \<Longrightarrow>
      I [k \<leftarrow> remaining. k \<notin> set (placed st)] (atlases @ [(atlas_img st, rects st)]) (printed st)"
  shows "I [] res out'"
  using assms
proof (induction M images remaining atlases out rule: pack_loop.induct)
  case (1 M images remaining atlases out)
  show ?case
  proof (cases "remaining = []")
    case True
    with "1.prems" show ?thesis by simp
  next
    case False
    then obtain k ks where rem: "remaining = k # ks" by (cases remaining) auto
    from "1.prems"(1) False obtain st where
      run: "for_loop M images (fresh_pass out) remaining = Inr st"
      by (auto split: sum.splits)
    from pass_places_first [OF run [unfolded rem]] have ne: "placed st \<noteq> []" by auto
    from "1.prems"(1) False run ne have rec:
      "pack_loop M images [k \<leftarrow> remaining. k \<notin> set (placed st)]
         (atlases @ [(atlas_img st, rects st)]) (printed st) = Inr (res, out')"
      by simp
    show ?thesis
      by (rule "1.IH" [OF False run ne rec well_formed_filter [OF "1.prems"(2)]
            "1.prems"(4) [OF False "1.prems"(2) "1.prems"(3) run] "1.prems"(4)])
  qed
qed

lemma pack_loop_total:
  "well_formed images remaining \<Longrightarrow> \<exists>res out'. pack_loop M images remaining atlases out = Inr (res, out')"
proof (induction M images remaining atlases out rule: pack_loop.induct)
  case (1 M images remaining atlases out)
  show ?case
  proof (cases "remaining = []")
    case True
    then show ?thesis by simp
  next
    case False
    then obtain k ks where rem: "remaining = k # ks" by (cases remaining) auto
    from "1.prems" have "set remaining \<subseteq> fst ` set images" by (simp add: well_formed_def)
    from for_loop_total [OF this] obtain st where
      run: "for_loop M images (fresh_pass out) remaining = Inr st" by blast
    from pass_places_first [OF run [unfolded rem]] have ne: "placed st \<noteq> []" by auto
    from "1.IH" [OF False run ne well_formed_filter [OF "1.prems"]] False run ne
    show ?thesis by simp
  qed
qed

subsection \<open>Facts about the sorted keys and the result of pack_atlas\<close>

lemma fold_update_distinct:
  "distinct (map fst acc) \<Longrightarrow>
   distinct (map fst (fold (\<lambda>(k, img) images. AList.update k img images) sprites acc))"
  by (induction sprites arbitrary: acc) (auto simp: distinct_update)

lemma distinct_load_images: "distinct (map fst (load_images sprites))"
  by (simp add: load_images_def fold_update_distinct)

lemma fold_update_fresh:
  "distinct (map fst (acc @ sprites)) \<Longrightarrow>
   fold (\<lambda>(k, img) images. AList.update k img images) sprites acc = acc @ sprites"
proof (induction sprites arbitrary: acc)
  case Nil
  then show ?case by simp
next
  case (Cons p sprites)
  obtain k img where p: "p = (k, img)" by (cases p)
  from Cons.prems p have fresh: "k \<notin> fst ` set acc" by auto
  from Cons.prems p have "distinct (map fst ((acc @ [(k, img)]) @ sprites))" by auto
  from Cons.IH [OF this] fresh p show ?case by (simp add: update_fresh)
qed

lemma load_images_dict: "distinct (map fst sprites) \<Longrightarrow> load_images sprites = sprites"
  using fold_update_fresh [of "[]" sprites] by (simp add: load_images_def)

lemma set_sorted_keys: "set (sorted_keys images) = fst ` set images"
  by (simp add: sorted_keys_def)

lemma distinct_sorted_keys:
  "distinct (map fst images) \<Longrightarrow> distinct (sorted_keys images)"
  unfolding sorted_keys_def
  by (metis distinct_map distinct_sort set_sort)

lemma height_of_item:
  "distinct (map fst images) \<Longrightarrow> (k, img) \<in> set images \<Longrightarrow> height_of images k = height img"
  by (simp add: height_of_def)

lemma sorted_keys_by_height:
  assumes "distinct (map fst images)"
  shows "sorted_wrt (\<lambda>a b. height_of images b \<le> height_of images a) (sorted_keys images)"
proof -
  let ?items = "sort_key (\<lambda>(k, img). sort_rank img) images"
  have "sorted (map (\<lambda>(k, img). sort_rank img) ?items)" by (rule sorted_sort_key)
  then have "sorted_wrt (\<lambda>a b. sort_rank (snd a) \<le> sort_rank (snd b)) ?items"
    by (simp add: sorted_map case_prod_beta)
  then have "sorted_wrt (\<lambda>a b. height_of images (fst b) \<le> height_of images (fst a)) ?items"
  proof (rule sorted_wrt_mono_rel [rotated])
    fix a b assume a: "a \<in> set ?items" and b: "b \<in> set ?items"
      and le: "sort_rank (snd a) \<le> sort_rank (snd b)"
    from a b assms have "height_of images (fst a) = height (snd a)"
      "height_of images (fst b) = height (snd b)"
      by (auto intro!: height_of_item)
    with le show "height_of images (fst b) \<le> height_of images (fst a)"
      by (auto simp: sort_rank_def less_eq_prod_def)
  qed
  then show ?thesis by (simp add: sorted_keys_def sorted_wrt_map)
qed

lemma well_formed_sorted_keys:
  "distinct (map fst images) \<Longrightarrow> well_formed images (sorted_keys images)"
  by (simp add: well_formed_def set_sorted_keys distinct_sorted_keys sorted_keys_by_height)

lemma well_formed_start: "well_formed (load_images sprites) (sorted_keys (load_images sprites))"
  by (rule well_formed_sorted_keys [OF distinct_load_images])

lemma pack_atlas_rule:
  assumes "pack_atlas M sprites = Inr (res, out')"
    and "I (sorted_keys (load_images sprites)) [] []"
    and "\<And>remaining atlases out st.
      remaining \<noteq> [] \<Longrightarrow> well_formed (load_images sprites) remaining \<Longrightarrow>
      I remaining atlases out \<Longrightarrow>
      for_loop M (load_images sprites) (fresh_pass out) remaining = Inr st \<Longrightarrow>
      I [k \<leftarrow> remaining. k \<notin> set (placed st)] (atlases @ [(atlas_img st, rects st)]) (printed st)"
  shows "I [] res out'"
proof (rule pack_loop_rule [where I = I])
  from assms(1) show "pack_loop M (load_images sprites) (sorted_keys (load_images sprites)) [] []
      = Inr (res, out')"
    by (simp add: pack_atlas_def Let_def)
qed (use assms(2,3) well_formed_start in blast)+

lemma pack_atlas_total: "\<exists>res out'. pack_atlas M sprites = Inr (res, out')"
  using pack_loop_total [OF well_formed_start] by (simp add: pack_atlas_def Let_def)

subsection \<open>Shelf invariant\<close>

definition overlaps :: "rect \<Rightarrow> rect \<Rightarrow> bool" where
  "overlaps a b \<longleftrightarrow>
     rect_x a < rect_x b + rect_w b \<and> rect_x b < rect_x a + rect_w a \<and>
     rect_y a < rect_y b + rect_h b \<and> rect_y b < rect_y a + rect_h a"

definition pixels :: "rect \<Rightarrow> (nat \<times> nat) set" where
  "pixels r = {(px, py). rect_x r \<le> px \<and> px < rect_x r + rect_w r \<and>
                         rect_y r \<le> py \<and> py < rect_y r + rect_h r}"

lemma pixels_disjoint: "\<not> overlaps a b \<Longrightarrow> pixels a \<inter> pixels b = {}"
  by (auto simp: overlaps_def pixels_def)

definition shelved :: "pass_state \<Rightarrow> bool" where
  "shelved st \<longleftrightarrow>
     (\<forall>(k, r) \<in> set (rects st).
        rect_y r + rect_h r \<le> cur_y st \<or>
        (rect_y r = cur_y st \<and> rect_x r + rect_w r \<le> cur_x st \<and> rect_h r \<le> row_height st))"

definition apart :: "(key \<times> rect) list \<Rightarrow> bool" where
  "apart rs \<longleftrightarrow> (\<forall>(k1, r1) \<in> set rs. \<forall>(k2, r2) \<in> set rs. k1 \<noteq> k2 \<longrightarrow> \<not> overlaps r1 r2)"

definition tidy :: "pass_state \<Rightarrow> bool" where
  "tidy st \<longleftrightarrow> shelved st \<and> apart (rects st) \<and> distinct (map fst (rects st))"

lemma tidy_fresh: "tidy (fresh_pass out)"
  by (simp add: tidy_def shelved_def apart_def fresh_pass_def)

lemma tidy_new_row:
  assumes "tidy st"
  shows "tidy (st\<lparr>cur_x := 0, cur_y := cur_y st + row_height st, row_height := 0\<rparr>)"
  using assms unfolding tidy_def shelved_def by fastforce

lemma tidy_put:
  assumes "tidy st"
  shows "tidy (put st k w h)"
proof -
  let ?new = "\<lparr>rect_x = cur_x st, rect_y = cur_y st, rect_w = w, rect_h = h\<rparr>"
  have sub: "set (rects (put st k w h)) \<subseteq> insert (k, ?new) (set (rects st))"
    using update_set [of k ?new "rects st"] by (simp add: put_def Let_def)
  have old: "\<not> overlaps r ?new \<and> \<not> overlaps ?new r" if "(k', r) \<in> set (rects st)" for k' r
    using assms that unfolding tidy_def shelved_def overlaps_def by fastforce
  have "rect_y r + rect_h r \<le> cur_y (put st k w h) \<or>
        (rect_y r = cur_y (put st k w h) \<and> rect_x r + rect_w r \<le> cur_x (put st k w h) \<and>
         rect_h r \<le> row_height (put st k w h))"
    if "(k', r) \<in> set (rects (put st k w h))" for k' r
  proof -
    from that sub have "(k', r) = (k, ?new) \<or> (k', r) \<in> set (rects st)" by auto
    then show ?thesis
    proof
      assume "(k', r) = (k, ?new)"
      then show ?thesis by (auto simp: put_def Let_def)
    next
      assume "(k', r) \<in> set (rects st)"
      with assms show ?thesis unfolding tidy_def shelved_def by (fastforce simp: put_def Let_def)
    qed
  qed
  then have "shelved (put st k w h)"
    unfolding shelved_def by blast
  moreover have "\<not> overlaps r1 r2"
    if 1: "(k1, r1) \<in> set (rects (put st k w h))"
      and 2: "(k2, r2) \<in> set (rects (put st k w h))"
      and ne: "k1 \<noteq> k2" for k1 r1 k2 r2
  proof -
    from 1 sub have c1: "(k1, r1) = (k, ?new) \<or> (k1, r1) \<in> set (rects st)" by auto
    from 2 sub have c2: "(k2, r2) = (k, ?new) \<or> (k2, r2) \<in> set (rects st)" by auto
    from c1 c2 ne old assms show ?thesis
      unfolding tidy_def apart_def by fastforce
  qed
  then have "apart (rects (put st k w h))"
    unfolding apart_def by blast
  moreover have "distinct (map fst (rects (put st k w h)))"
    using assms by (simp add: tidy_def put_def Let_def distinct_update)
  ultimately show ?thesis by (simp add: tidy_def)
qed

lemma tidy_body: "tidy st \<Longrightarrow> tidy (body M st k img)"
proof -
  assume t: "tidy st"
  have skip: "tidy (st\<lparr>printed := p, placed := q\<rparr>)" for p q
    using t by (simp add: tidy_def shelved_def)
  show ?thesis
    unfolding body_def Let_def
    by (simp add: t skip tidy_put tidy_new_row)
qed

lemma tidy_for_loop:
  assumes "for_loop M images (fresh_pass out) ks = Inr st"
  shows "tidy st"
  by (rule for_loop_rule [OF assms, where P = "\<lambda>s ks. tidy s"])
     (simp_all add: tidy_fresh tidy_body)

text \<open>The scenario of the specification, with the module constant set to 25.\<close>

definition abc :: "(key \<times> image) list" where
  "abc = [(''a'', \<lparr>width = 10, height = 20\<rparr>), (''b'', \<lparr>width = 10, height = 20\<rparr>),
          (''c'', \<lparr>width = 10, height = 20\<rparr>)]"

lemma abc_run: "pack_atlas 25 abc = Inr
   ([(\<lparr>width = 20, height = 20, fill = (0, 0, 0, 0), pastes = [(''a'', 0, 0), (''b'', 10, 0)]\<rparr>,
        [(''a'', \<lparr>rect_x = 0, rect_y = 0, rect_w = 10, rect_h = 20\<rparr>),
         (''b'', \<lparr>rect_x = 10, rect_y = 0, rect_w = 10, rect_h = 20\<rparr>)]),
       (\<lparr>width = 10, height = 20, fill = (0, 0, 0, 0), pastes = [(''c'', 0, 0)]\<rparr>,
        [(''c'', \<lparr>rect_x = 0, rect_y = 0, rect_w = 10, rect_h = 20\<rparr>)])], [])"
  by (simp add: abc_def pack_atlas_def load_images_def sorted_keys_def sort_rank_def
      fresh_pass_def body_def put_def atlas_img_def Let_def)

subsection \<open>No two rectangles of an atlas overlap\<close>

text \<open>
  Claim C1. In every atlas that \<open>pack_atlas\<close> returns, the rectangles stored under two
  different keys do not overlap: the axis-aligned intersection test fails for them, and
  they share no pixel.
\<close>

theorem pack_atlas_no_overlap:
  assumes "pack_atlas M sprites = Inr (atlases, out)"
    and "(img, rs) \<in> set atlases"
    and "(k1, r1) \<in> set rs" and "(k2, r2) \<in> set rs" and "k1 \<noteq> k2"
  shows "\<not> overlaps r1 r2 \<and> pixels r1 \<inter> pixels r2 = {}"
proof -
  have "\<forall>(img, rs) \<in> set atlases. apart rs"
    by (rule pack_atlas_rule [OF assms(1),
          where I = "\<lambda>remaining atlases out. \<forall>(img, rs) \<in> set atlases. apart rs"])
       (use tidy_for_loop in \<open>auto simp: tidy_def\<close>)
  with assms(2-5) have "\<not> overlaps r1 r2" unfolding apart_def by fastforce
  then show ?thesis by (simp add: pixels_disjoint)
qed

theorem pack_atlas_no_overlap_witness:
  "pack_atlas 25 abc = Inr
     ([(\<lparr>width = 20, height = 20, fill = (0, 0, 0, 0), pastes = [(''a'', 0, 0), (''b'', 10, 0)]\<rparr>,
        [(''a'', \<lparr>rect_x = 0, rect_y = 0, rect_w = 10, rect_h = 20\<rparr>),
         (''b'', \<lparr>rect_x = 10, rect_y = 0, rect_w = 10, rect_h = 20\<rparr>)]),
       (\<lparr>width = 10, height = 20, fill = (0, 0, 0, 0), pastes = [(''c'', 0, 0)]\<rparr>,
        [(''c'', \<lparr>rect_x = 0, rect_y = 0, rect_w = 10, rect_h = 20\<rparr>)])], []) \<and>
   \<not> overlaps \<lparr>rect_x = 0, rect_y = 0, rect_w = 10, rect_h = 20\<rparr>
                \<lparr>rect_x = 10, rect_y = 0, rect_w = 10, rect_h = 20\<rparr> \<and>
   pixels \<lparr>rect_x = 0, rect_y = 0, rect_w = 10, rect_h = 20\<rparr> \<inter>
   pixels \<lparr>rect_x = 10, rect_y = 0, rect_w = 10, rect_h = 20\<rparr> = {}"
  using abc_run
    pack_atlas_no_overlap [OF abc_run, of _
      "[(''a'', \<lparr>rect_x = 0, rect_y = 0, rect_w = 10, rect_h = 20\<rparr>),
        (''b'', \<lparr>rect_x = 10, rect_y = 0, rect_w = 10, rect_h = 20\<rparr>)]"
      "''a''" "\<lparr>rect_x = 0, rect_y = 0, rect_w = 10, rect_h = 20\<rparr>"
      "''b''" "\<lparr>rect_x = 10, rect_y = 0, rect_w = 10, rect_h = 20\<rparr>"]
  by simp

subsection \<open>The three-sprite scenario\<close>

text \<open>
  Claim C3. With sprites a, b, c of 10x20 each and the maximum size 25, the keys are
  processed in the order a, b, c; the first pass stores a at (0,0) and b at (10,0), opens a
  new shelf at y = 20 for c, finds 20 + 20 > 25 and leaves c unplaced, with a bounding box
  of 20x20; the second pass stores c at (0,0) with a bounding box of 10x20. The result has
  exactly two atlases.
\<close>

theorem pack_atlas_three_sprites:
  "sorted_keys (load_images abc) = [''a'', ''b'', ''c''] \<and>
   for_loop 25 (load_images abc) (fresh_pass []) [''a'', ''b'', ''c''] = Inr
     \<lparr>rects = [(''a'', \<lparr>rect_x = 0, rect_y = 0, rect_w = 10, rect_h = 20\<rparr>),
               (''b'', \<lparr>rect_x = 10, rect_y = 0, rect_w = 10, rect_h = 20\<rparr>)],
      cur_x = 0, cur_y = 20, row_height = 0, atlas_width = 20, atlas_height = 20,
      placed = [''a'', ''b''], printed = []\<rparr> \<and>
   pack_atlas 25 abc = Inr
     ([(\<lparr>width = 20, height = 20, fill = (0, 0, 0, 0),
          pastes = [(''a'', 0, 0), (''b'', 10, 0)]\<rparr>,
        [(''a'', \<lparr>rect_x = 0, rect_y = 0, rect_w = 10, rect_h = 20\<rparr>),
         (''b'', \<lparr>rect_x = 10, rect_y = 0, rect_w = 10, rect_h = 20\<rparr>)]),
       (\<lparr>width = 10, height = 20, fill = (0, 0, 0, 0), pastes = [(''c'', 0, 0)]\<rparr>,
        [(''c'', \<lparr>rect_x = 0, rect_y = 0, rect_w = 10, rect_h = 20\<rparr>)])], [])"
  by (simp add: abc_def pack_atlas_def load_images_def sorted_keys_def sort_rank_def
      fresh_pass_def body_def put_def atlas_img_def Let_def)

subsection \<open>Every pass places a sprite; the packer terminates\<close>

lemma printed_body:
  "set (printed (body M st k img)) \<subseteq> insert (WARNING k (width img) (height img)) (set (printed st))"
  by (auto simp: body_def put_def Let_def)

lemma printed_for_loop_no_error:
  assumes "for_loop M images st ks = Inr st'" and "\<forall>n. ERROR n \<notin> set (printed st)"
  shows "\<forall>n. ERROR n \<notin> set (printed st')"
  by (rule for_loop_rule [OF assms(1), where P = "\<lambda>s ks. \<forall>n. ERROR n \<notin> set (printed s)"])
     (use assms(2) printed_body in fastforce)+

lemma first_rect_body:
  assumes "width img \<le> M" and "height img \<le> M"
  shows "map_of (rects (body M (fresh_pass out) k img)) k =
    Some \<lparr>rect_x = 0, rect_y = 0, rect_w = width img, rect_h = height img\<rparr>"
  using assms by (simp add: body_def put_def fresh_pass_def Let_def)

lemma rects_body_other:
  "k' \<noteq> k \<Longrightarrow> map_of (rects (body M st k img)) k' = map_of (rects st) k'"
  by (simp add: body_def put_def Let_def update_conv')

lemma rects_for_loop_other:
  assumes "for_loop M images st ks = Inr st'" and "k' \<notin> set ks"
  shows "map_of (rects st') k' = map_of (rects st) k'"
  by (rule for_loop_rule [OF assms(1),
        where P = "\<lambda>s ks. k' \<notin> set ks \<and> map_of (rects s) k' = map_of (rects st) k'", THEN conjunct2])
     (use assms(2) rects_body_other in auto)

text \<open>
  Claim C10. A pass over a non-empty list of distinct keys of the images dict marks its
  first key as placed: the key is skipped as oversize (and gets no rect), or its rect is
  stored at (0, 0). So the list of remaining keys gets strictly shorter. \<open>pack_atlas\<close>
  returns for every input, without an exception, and never prints the error line of the
  branch for a pass that placed nothing.
\<close>

theorem pack_atlas_progress:
  "(\<forall>images remaining out.
      remaining \<noteq> [] \<and> distinct remaining \<and> set remaining \<subseteq> fst ` set images \<longrightarrow>
      (\<exists>st img. for_loop M images (fresh_pass out) remaining = Inr st \<and>
         map_of images (hd remaining) = Some img \<and>
         hd remaining \<in> set (placed st) \<and>
         map_of (rects st) (hd remaining) =
           (if width img > M \<or> height img > M then None
            else Some \<lparr>rect_x = 0, rect_y = 0, rect_w = width img, rect_h = height img\<rparr>) \<and>
         length [k \<leftarrow> remaining. k \<notin> set (placed st)] < length remaining)) \<and>
   (\<exists>atlases out. pack_atlas M sprites = Inr (atlases, out) \<and> (\<forall>n. ERROR n \<notin> set out))"
proof (intro conjI allI impI)
  fix images :: "(key \<times> image) list" and remaining :: "key list" and out :: "line list"
  assume "remaining \<noteq> [] \<and> distinct remaining \<and> set remaining \<subseteq> fst ` set images"
  then obtain k ks where rem: "remaining = k # ks" and fresh: "k \<notin> set ks"
    and sub: "set remaining \<subseteq> fst ` set images"
    by (cases remaining) auto
  from for_loop_total [OF sub] obtain st where
    run: "for_loop M images (fresh_pass out) remaining = Inr st" by blast
  from run rem obtain img where img: "map_of images k = Some img"
    and rest: "for_loop M images (body M (fresh_pass out) k img) ks = Inr st"
    by (auto split: option.splits)
  have first: "k \<in> set (placed st)" using pass_places_first run rem by blast
  have "map_of (rects st) k = map_of (rects (body M (fresh_pass out) k img)) k"
    by (rule rects_for_loop_other [OF rest fresh])
  also have "\<dots> = (if width img > M \<or> height img > M then None
            else Some \<lparr>rect_x = 0, rect_y = 0, rect_w = width img, rect_h = height img\<rparr>)"
    by (auto simp: first_rect_body) (auto simp: body_def fresh_pass_def Let_def)
  finally have rect: "map_of (rects st) k = (if width img > M \<or> height img > M then None
            else Some \<lparr>rect_x = 0, rect_y = 0, rect_w = width img, rect_h = height img\<rparr>)" .
  have "length [k \<leftarrow> remaining. k \<notin> set (placed st)] < length remaining"
    using first rem by (intro length_filter_less [of k]) auto
  with run img first rect rem
  show "\<exists>st img. for_loop M images (fresh_pass out) remaining = Inr st \<and>
         map_of images (hd remaining) = Some img \<and>
         hd remaining \<in> set (placed st) \<and>
         map_of (rects st) (hd remaining) =
           (if width img > M \<or> height img > M then None
            else Some \<lparr>rect_x = 0, rect_y = 0, rect_w = width img, rect_h = height img\<rparr>) \<and>
         length [k \<leftarrow> remaining. k \<notin> set (placed st)] < length remaining"
    by auto
next
  from pack_atlas_total obtain atlases out where
    run: "pack_atlas M sprites = Inr (atlases, out)" by blast
  have "\<forall>n. ERROR n \<notin> set out"
    by (rule pack_atlas_rule [OF run, where I = "\<lambda>remaining atlases out. \<forall>n. ERROR n \<notin> set out"])
       (use printed_for_loop_no_error in \<open>auto simp: fresh_pass_def\<close>)
  with run show "\<exists>atlases out. pack_atlas M sprites = Inr (atlases, out) \<and> (\<forall>n. ERROR n \<notin> set out)"
    by blast
qed

theorem pack_atlas_progress_witness:
  "\<exists>st img. for_loop 25 abc (fresh_pass []) [''a'', ''b'', ''c''] = Inr st \<and>
     map_of abc ''a'' = Some img \<and> ''a'' \<in> set (placed st) \<and>
     map_of (rects st) ''a'' = Some \<lparr>rect_x = 0, rect_y = 0, rect_w = 10, rect_h = 20\<rparr> \<and>
     length [k \<leftarrow> [''a'', ''b'', ''c'']. k \<notin> set (placed st)] < 3"
proof -
  have pre: "[''a'', ''b'', ''c''] \<noteq> [] \<and> distinct [''a'', ''b'', ''c''] \<and>
      set [''a'', ''b'', ''c''] \<subseteq> fst ` set abc"
    by (simp add: abc_def)
  from pack_atlas_progress [of 25 abc, THEN conjunct1, rule_format, OF pre, of "[]"]
  show ?thesis by (auto simp: abc_def)
qed

subsection \<open>Which keys get a rectangle\<close>

definition fits :: "nat \<Rightarrow> (key \<times> image) list \<Rightarrow> key \<Rightarrow> bool" where
  "fits M images k =
     (case map_of images k of Some img \<Rightarrow> width img \<le> M \<and> height img \<le> M | None \<Rightarrow> False)"

text \<open>The number of rect entries stored for a key in all atlases together.\<close>

definition occurrences :: "key \<Rightarrow> atlas list \<Rightarrow> nat" where
  "occurrences k atlases = length (concat (map (\<lambda>(c, rs). [(k', r) \<leftarrow> rs. k' = k]) atlases))"

lemma occurrences_Nil: "occurrences k [] = 0"
  by (simp add: occurrences_def)

lemma occurrences_snoc:
  "occurrences k (atlases @ [(c, rs)]) = occurrences k atlases + length [(k', r) \<leftarrow> rs. k' = k]"
  by (simp add: occurrences_def)

lemma entries_distinct:
  "distinct (map fst rs) \<Longrightarrow>
   length [(k', r) \<leftarrow> rs. k' = k] = (if k \<in> fst ` set rs then 1 else 0)"
proof (induction rs)
  case Nil
  then show ?case by simp
next
  case (Cons p rs)
  then show ?case by (cases p) (auto simp: image_iff)
qed

lemma rect_keys_body:
  assumes "map_of images k = Some img"
    and "fst ` set (rects st) = {k \<in> set (placed st). fits M images k}"
  shows "fst ` set (rects (body M st k img)) = {k' \<in> set (placed (body M st k img)). fits M images k'}"
proof (cases "width img > M \<or> height img > M")
  case True
  with assms(1) have "\<not> fits M images k" by (auto simp: fits_def)
  with True assms(2) show ?thesis by (auto simp: body_def Let_def)
next
  case False
  with assms(1) have "fits M images k" by (auto simp: fits_def)
  with False assms(2) show ?thesis
    by (auto simp: body_def put_def Let_def dom_update)
qed

lemma rect_keys_for_loop:
  assumes "for_loop M images (fresh_pass out) ks = Inr st"
  shows "fst ` set (rects st) = {k \<in> set (placed st). fits M images k}"
  by (rule for_loop_rule [OF assms,
        where P = "\<lambda>s ks. fst ` set (rects s) = {k \<in> set (placed s). fits M images k}"])
     (simp_all add: fresh_pass_def rect_keys_body)

lemma printed_body_mono: "set (printed st) \<subseteq> set (printed (body M st k img))"
  by (auto simp: body_def put_def Let_def)

lemma oversize_body:
  "width img > M \<or> height img > M \<Longrightarrow>
   k \<in> set (placed (body M st k img)) \<and>
   WARNING k (width img) (height img) \<in> set (printed (body M st k img))"
  by (auto simp: body_def Let_def)

definition warned :: "nat \<Rightarrow> (key \<times> image) list \<Rightarrow> key \<Rightarrow> pass_state \<Rightarrow> bool" where
  "warned M images k st \<longleftrightarrow>
     (\<forall>img. map_of images k = Some img \<and> (width img > M \<or> height img > M) \<longrightarrow>
        k \<in> set (placed st) \<and> WARNING k (width img) (height img) \<in> set (printed st))"

lemma warned_for_loop:
  assumes "for_loop M images st ks = Inr st'"
  shows "\<forall>k \<in> set ks. warned M images k st'"
proof -
  have "\<forall>k \<in> set ks. k \<notin> set [] \<longrightarrow> warned M images k st'"
  proof (rule for_loop_rule [OF assms,
        where P = "\<lambda>s todo. \<forall>k \<in> set ks. k \<notin> set todo \<longrightarrow> warned M images k s"])
    show "\<forall>k \<in> set ks. k \<notin> set ks \<longrightarrow> warned M images k st" by simp
  next
    fix s k todo img
    assume inv: "\<forall>k' \<in> set ks. k' \<notin> set (k # todo) \<longrightarrow> warned M images k' s"
      and img: "map_of images k = Some img"
    show "\<forall>k' \<in> set ks. k' \<notin> set todo \<longrightarrow> warned M images k' (body M s k img)"
    proof (intro ballI impI)
      fix k' assume k': "k' \<in> set ks" "k' \<notin> set todo"
      show "warned M images k' (body M s k img)"
      proof (cases "k' = k")
        case True
        with img oversize_body [of M img k s] show ?thesis by (auto simp: warned_def)
      next
        case False
        with inv k' have "warned M images k' s" by simp
        with placed_body_mono [of s M k img] printed_body_mono [of s M k img]
        show ?thesis unfolding warned_def by blast
      qed
    qed
  qed
  then show ?thesis by simp
qed

lemma printed_for_loop_mono:
  assumes "for_loop M images st ks = Inr st'"
  shows "set (printed st) \<subseteq> set (printed st')"
  by (rule for_loop_rule [OF assms, where P = "\<lambda>s ks. set (printed st) \<subseteq> set (printed s)"])
     (use printed_body_mono in blast)+

definition settled ::
  "nat \<Rightarrow> (key \<times> image) list \<Rightarrow> key list \<Rightarrow> key list \<Rightarrow> atlas list \<Rightarrow> line list \<Rightarrow> bool" where
  "settled M images all remaining atlases out \<longleftrightarrow>
     set remaining \<subseteq> set all \<and>
     (\<forall>k. occurrences k atlases =
        (if k \<in> set all \<and> k \<notin> set remaining \<and> fits M images k then 1 else 0)) \<and>
     (\<forall>k \<in> set all. k \<notin> set remaining \<longrightarrow>
        (\<forall>img. map_of images k = Some img \<and> (width img > M \<or> height img > M) \<longrightarrow>
           WARNING k (width img) (height img) \<in> set out))"

lemma settled_start: "settled M images all all [] []"
  by (simp add: settled_def occurrences_Nil)

lemma settled_step:
  assumes inv: "settled M images all remaining atlases out"
    and run: "for_loop M images (fresh_pass out) remaining = Inr st"
  shows "settled M images all [k \<leftarrow> remaining. k \<notin> set (placed st)]
           (atlases @ [(atlas_img st, rects st)]) (printed st)"
proof -
  have sub: "set (placed st) \<subseteq> set remaining"
    using placed_for_loop [OF run] by (simp add: fresh_pass_def)
  have keys: "fst ` set (rects st) = {k \<in> set (placed st). fits M images k}"
    by (rule rect_keys_for_loop [OF run])
  have dist: "distinct (map fst (rects st))"
    using tidy_for_loop [OF run] by (simp add: tidy_def)
  have mono: "set out \<subseteq> set (printed st)"
    using printed_for_loop_mono [OF run] by (simp add: fresh_pass_def)
  have warn: "\<forall>k \<in> set remaining. warned M images k st"
    by (rule warned_for_loop [OF run])
  have count: "occurrences k (atlases @ [(atlas_img st, rects st)]) =
      occurrences k atlases + (if k \<in> set (placed st) \<and> fits M images k then 1 else 0)" for k
    using keys by (simp add: occurrences_snoc entries_distinct [OF dist])
  from inv have rem: "set remaining \<subseteq> set all" by (simp add: settled_def)
  have 1: "set [k \<leftarrow> remaining. k \<notin> set (placed st)] \<subseteq> set all"
    using rem by auto
  have 2: "occurrences k (atlases @ [(atlas_img st, rects st)]) =
      (if k \<in> set all \<and> k \<notin> set [k \<leftarrow> remaining. k \<notin> set (placed st)] \<and> fits M images k
       then 1 else 0)" for k
    using inv sub rem unfolding settled_def count by auto
  have 3: "WARNING k (width img) (height img) \<in> set (printed st)"
    if "k \<in> set all" "k \<notin> set [k \<leftarrow> remaining. k \<notin> set (placed st)]"
      "map_of images k = Some img" "width img > M \<or> height img > M" for k img
  proof (cases "k \<in> set remaining")
    case True
    with warn that show ?thesis by (auto simp: warned_def)
  next
    case False
    with inv that mono show ?thesis unfolding settled_def by blast
  qed
  from 1 2 3 show ?thesis unfolding settled_def by blast
qed

lemma pack_atlas_settled:
  assumes "pack_atlas M sprites = Inr (atlases, out)"
  shows "settled M (load_images sprites) (sorted_keys (load_images sprites)) [] atlases out"
  by (rule pack_atlas_rule [OF assms,
        where I = "settled M (load_images sprites) (sorted_keys (load_images sprites))"])
     (simp_all add: settled_start settled_step)

lemma dict_lookup:
  "distinct (map fst sprites) \<Longrightarrow> (k, img) \<in> set sprites \<Longrightarrow>
   map_of (load_images sprites) k = Some img \<and> k \<in> set (sorted_keys (load_images sprites))"
  by (simp add: load_images_dict set_sorted_keys image_iff) force

subsection \<open>Sprites that fit are placed exactly once\<close>

text \<open>
  Claim C2. For a dict of sprites (distinct keys), \<open>pack_atlas\<close> returns, and a sprite
  whose width and height are both at most the maximum size has exactly one rect entry in
  all the returned atlases together. (The pass that places nothing never happens, so there
  is no exception.)
\<close>

theorem pack_atlas_places_once:
  assumes "distinct (map fst sprites)"
    and "(k, img) \<in> set sprites"
    and "width img \<le> M" and "height img \<le> M"
  shows "\<exists>atlases out. pack_atlas M sprites = Inr (atlases, out) \<and> occurrences k atlases = 1"
proof -
  from pack_atlas_total obtain atlases out where
    run: "pack_atlas M sprites = Inr (atlases, out)" by blast
  from dict_lookup [OF assms(1,2)] assms(3,4)
  have "k \<in> set (sorted_keys (load_images sprites))" "fits M (load_images sprites) k"
    by (simp_all add: fits_def)
  with pack_atlas_settled [OF run] have "occurrences k atlases = 1"
    by (simp add: settled_def)
  with run show ?thesis by blast
qed

theorem pack_atlas_places_once_witness:
  "distinct (map fst abc) \<and> (''c'', \<lparr>width = 10, height = 20\<rparr>) \<in> set abc \<and>
   pack_atlas 25 abc = Inr
     ([(\<lparr>width = 20, height = 20, fill = (0, 0, 0, 0), pastes = [(''a'', 0, 0), (''b'', 10, 0)]\<rparr>,
        [(''a'', \<lparr>rect_x = 0, rect_y = 0, rect_w = 10, rect_h = 20\<rparr>),
         (''b'', \<lparr>rect_x = 10, rect_y = 0, rect_w = 10, rect_h = 20\<rparr>)]),
       (\<lparr>width = 10, height = 20, fill = (0, 0, 0, 0), pastes = [(''c'', 0, 0)]\<rparr>,
        [(''c'', \<lparr>rect_x = 0, rect_y = 0, rect_w = 10, rect_h = 20\<rparr>)])], []) \<and>
   occurrences ''c''
     [(\<lparr>width = 20, height = 20, fill = (0, 0, 0, 0), pastes = [(''a'', 0, 0), (''b'', 10, 0)]\<rparr>,
        [(''a'', \<lparr>rect_x = 0, rect_y = 0, rect_w = 10, rect_h = 20\<rparr>),
         (''b'', \<lparr>rect_x = 10, rect_y = 0, rect_w = 10, rect_h = 20\<rparr>)]),
       (\<lparr>width = 10, height = 20, fill = (0, 0, 0, 0), pastes = [(''c'', 0, 0)]\<rparr>,
        [(''c'', \<lparr>rect_x = 0, rect_y = 0, rect_w = 10, rect_h = 20\<rparr>)])] = 1"
proof -
  have d: "distinct (map fst abc)" and m: "(''c'', \<lparr>width = 10, height = 20\<rparr>) \<in> set abc"
    by (simp_all add: abc_def)
  from pack_atlas_places_once [OF d m, of 25]
  obtain atlases out where "pack_atlas 25 abc = Inr (atlases, out)"
    and "occurrences ''c'' atlases = 1"
    by auto
  with abc_run d m show ?thesis by simp
qed

text \<open>A second scenario: two of three sprites are too large for a maximum size of 25.\<close>

definition mixed :: "(key \<times> image) list" where
  "mixed = [(''a'', \<lparr>width = 30, height = 20\<rparr>), (''b'', \<lparr>width = 10, height = 20\<rparr>),
            (''c'', \<lparr>width = 10, height = 30\<rparr>)]"

lemma mixed_run: "pack_atlas 25 mixed = Inr
   ([(\<lparr>width = 10, height = 20, fill = (0, 0, 0, 0), pastes = [(''b'', 0, 0)]\<rparr>,
      [(''b'', \<lparr>rect_x = 0, rect_y = 0, rect_w = 10, rect_h = 20\<rparr>)])],
    [WARNING ''c'' 10 30, WARNING ''a'' 30 20])"
  by (simp add: mixed_def pack_atlas_def load_images_def sorted_keys_def sort_rank_def
      fresh_pass_def body_def put_def atlas_img_def Let_def)

subsection \<open>Oversize sprites are dropped with a warning\<close>

text \<open>
  Claim C4. For a dict of sprites, a sprite wider or higher than the maximum size makes
  no difference to the run: \<open>pack_atlas\<close> returns, the sprite has no rect entry in any
  atlas, its warning line is printed, and every sprite that fits still has its one rect.
\<close>

theorem pack_atlas_drops_oversize:
  assumes "distinct (map fst sprites)"
    and "(k, img) \<in> set sprites"
    and "width img > M \<or> height img > M"
  shows "\<exists>atlases out. pack_atlas M sprites = Inr (atlases, out) \<and>
     occurrences k atlases = 0 \<and>
     (\<forall>(c, rs) \<in> set atlases. k \<notin> fst ` set rs) \<and>
     WARNING k (width img) (height img) \<in> set out \<and>
     (\<forall>(k', img') \<in> set sprites.
        width img' \<le> M \<and> height img' \<le> M \<longrightarrow> occurrences k' atlases = 1)"
proof -
  from pack_atlas_total obtain atlases out where
    run: "pack_atlas M sprites = Inr (atlases, out)" by blast
  note s = pack_atlas_settled [OF run]
  from dict_lookup [OF assms(1,2)]
  have k: "k \<in> set (sorted_keys (load_images sprites))"
    and img: "map_of (load_images sprites) k = Some img" by simp_all
  from img assms(3) have "\<not> fits M (load_images sprites) k" by (auto simp: fits_def)
  with s have 0: "occurrences k atlases = 0" by (simp add: settled_def)
  then have none: "\<forall>(c, rs) \<in> set atlases. k \<notin> fst ` set rs"
    by (fastforce simp: occurrences_def filter_empty_conv)
  from s k img assms(3) have w: "WARNING k (width img) (height img) \<in> set out"
    unfolding settled_def by simp
  have "occurrences k' atlases = 1"
    if "(k', img') \<in> set sprites" "width img' \<le> M \<and> height img' \<le> M" for k' img'
    using dict_lookup [OF assms(1) that(1)] that(2) s by (simp add: settled_def fits_def)
  with run 0 none w show ?thesis by blast
qed

theorem pack_atlas_drops_oversize_witness:
  "distinct (map fst mixed) \<and> (''a'', \<lparr>width = 30, height = 20\<rparr>) \<in> set mixed \<and>
   (\<exists>atlases out. pack_atlas 25 mixed = Inr (atlases, out) \<and>
      occurrences ''a'' atlases = 0 \<and> WARNING ''a'' 30 20 \<in> set out \<and>
      occurrences ''b'' atlases = 1)"
proof -
  have d: "distinct (map fst mixed)" and m: "(''a'', \<lparr>width = 30, height = 20\<rparr>) \<in> set mixed"
    by (simp_all add: mixed_def)
  have "width \<lparr>width = 30, height = 20\<rparr> > (25::nat) \<or> height \<lparr>width = 30, height = 20\<rparr> > (25::nat)"
    by simp
  from pack_atlas_drops_oversize [OF d m this] d m show ?thesis
    by (auto simp: mixed_def)
qed

subsection \<open>The processing order\<close>

text \<open>The position of a key in the enumeration order of the input dict.\<close>

fun index_of :: "'a list \<Rightarrow> 'a \<Rightarrow> nat" where
  "index_of [] x = 0"
| "index_of (y # ys) x = (if x = y then 0 else Suc (index_of ys x))"

text \<open>
  \<open>precedes sprites a b\<close>: a is higher than b, or as high and wider, or of the same size
  and enumerated earlier.
\<close>

definition precedes :: "(key \<times> image) list \<Rightarrow> key \<Rightarrow> key \<Rightarrow> bool" where
  "precedes sprites a b =
     (case (map_of sprites a, map_of sprites b) of
        (Some ia, Some ib) \<Rightarrow>
          height ib < height ia \<or>
          (height ia = height ib \<and>
            (width ib < width ia \<or>
             (width ia = width ib \<and> index_of (map fst sprites) a < index_of (map fst sprites) b)))
      | _ \<Rightarrow> False)"

lemma index_of_order:
  "distinct xs \<Longrightarrow> sorted_wrt (\<lambda>a b. index_of xs a < index_of xs b) xs"
proof (induction xs)
  case Nil
  then show ?case by simp
next
  case (Cons y ys)
  then have "sorted_wrt (\<lambda>a b. index_of ys a < index_of ys b) ys" by simp
  then have "sorted_wrt (\<lambda>a b. index_of (y # ys) a < index_of (y # ys) b) ys"
    by (rule sorted_wrt_mono_rel [rotated]) (use Cons.prems in auto)
  with Cons.prems show ?case by auto
qed

lemma sorted_wrt_ties:
  fixes f :: "'a \<Rightarrow> 'b::order"
  assumes "sorted_wrt (\<lambda>p q. f p \<le> f q) ys"
    and "\<And>c. sorted_wrt R [p \<leftarrow> ys. f p = c]"
  shows "sorted_wrt (\<lambda>p q. f p < f q \<or> (f p = f q \<and> R p q)) ys"
  using assms
proof (induction ys)
  case Nil
  then show ?case by simp
next
  case (Cons y ys)
  have tail: "sorted_wrt R [p \<leftarrow> ys. f p = c]" for c
    using Cons.prems(2) [of c] by (auto split: if_splits)
  have "f y < f q \<or> (f y = f q \<and> R y q)" if q: "q \<in> set ys" for q
  proof (cases "f y = f q")
    case True
    from Cons.prems(2) [of "f y"] q True show ?thesis by auto
  next
    case False
    with Cons.prems(1) q show ?thesis by auto
  qed
  moreover from Cons.prems(1) have "sorted_wrt (\<lambda>p q. f p \<le> f q) ys" by simp
  from Cons.IH [OF this tail]
  have "sorted_wrt (\<lambda>p q. f p < f q \<or> (f p = f q \<and> R p q)) ys" .
  ultimately show ?case by simp
qed

lemma sort_rank_less:
  "sort_rank a < sort_rank b \<longleftrightarrow>
     height b < height a \<or> (height a = height b \<and> width b < width a)"
  by (auto simp: sort_rank_def less_prod_def)

lemma sort_rank_eq: "sort_rank a = sort_rank b \<longleftrightarrow> height a = height b \<and> width a = width b"
  by (auto simp: sort_rank_def)

lemma sorted_keys_precedes:
  assumes d: "distinct (map fst sprites)"
  shows "sorted_wrt (precedes sprites) (sorted_keys sprites)"
proof -
  let ?f = "\<lambda>(k, img). sort_rank img"
  let ?R = "\<lambda>p q. index_of (map fst sprites) (fst p) < index_of (map fst sprites) (fst q)"
  let ?items = "sort_key ?f sprites"
  have "sorted (map ?f ?items)" by (rule sorted_sort_key)
  then have 1: "sorted_wrt (\<lambda>p q. ?f p \<le> ?f q) ?items" by (simp add: sorted_map)
  have "sorted_wrt ?R sprites"
    using index_of_order [OF d] by (simp add: sorted_wrt_map)
  then have "sorted_wrt ?R [p \<leftarrow> sprites. ?f p = c]" for c by (rule sorted_wrt_filter)
  then have 2: "sorted_wrt ?R [p \<leftarrow> ?items. ?f p = c]" for c
    by (simp add: sort_key_stable)
  have "sorted_wrt (\<lambda>p q. ?f p < ?f q \<or> (?f p = ?f q \<and> ?R p q)) ?items"
    by (rule sorted_wrt_ties [OF 1 2])
  then have "sorted_wrt (\<lambda>p q. precedes sprites (fst p) (fst q)) ?items"
  proof (rule sorted_wrt_mono_rel [rotated])
    fix p q assume p: "p \<in> set ?items" and q: "q \<in> set ?items"
      and r: "?f p < ?f q \<or> (?f p = ?f q \<and> ?R p q)"
    obtain ka ia kb ib where pq: "p = (ka, ia)" "q = (kb, ib)" by (cases p, cases q)
    with p q d have "map_of sprites ka = Some ia" "map_of sprites kb = Some ib" by simp_all
    with r pq show "precedes sprites (fst p) (fst q)"
      by (auto simp: precedes_def sort_rank_less sort_rank_eq)
  qed
  then show ?thesis by (simp add: sorted_keys_def sorted_wrt_map)
qed

text \<open>
  Claim C5. For a dict of sprites, the keys are processed by descending height, then by
  descending width, then in the enumeration order of the dict: the list the first pass
  iterates over holds every key once and each key precedes, in this order, all keys after
  it. Every later pass iterates over what is left of that list, in the same order.
\<close>

theorem pack_atlas_order:
  assumes "distinct (map fst sprites)"
  shows "pack_atlas M sprites = pack_loop M sprites (sorted_keys sprites) [] [] \<and>
     sorted_wrt (precedes sprites) (sorted_keys sprites) \<and>
     distinct (sorted_keys sprites) \<and>
     set (sorted_keys sprites) = fst ` set sprites"
  using assms
  by (simp add: pack_atlas_def Let_def load_images_dict sorted_keys_precedes
      distinct_sorted_keys set_sorted_keys)

definition ties :: "(key \<times> image) list" where
  "ties = [(''p'', \<lparr>width = 4, height = 8\<rparr>), (''q'', \<lparr>width = 6, height = 8\<rparr>),
           (''r'', \<lparr>width = 4, height = 9\<rparr>), (''s'', \<lparr>width = 4, height = 8\<rparr>)]"

theorem pack_atlas_order_witness:
  "distinct (map fst ties) \<and> sorted_keys ties = [''r'', ''q'', ''p'', ''s''] \<and>
   sorted_wrt (precedes ties) [''r'', ''q'', ''p'', ''s'']"
proof -
  have d: "distinct (map fst ties)" by (simp add: ties_def)
  have s: "sorted_keys ties = [''r'', ''q'', ''p'', ''s'']"
    by (simp add: ties_def sorted_keys_def sort_rank_def)
  from pack_atlas_order [OF d, of 25] d s show ?thesis by simp
qed

subsection \<open>The bounding box\<close>

definition right_edge :: "rect \<Rightarrow> nat" where
  "right_edge r = rect_x r + rect_w r"

definition bottom_edge :: "rect \<Rightarrow> nat" where
  "bottom_edge r = rect_y r + rect_h r"

definition tight :: "pass_state \<Rightarrow> key list \<Rightarrow> bool" where
  "tight st todo \<longleftrightarrow>
     distinct todo \<and> fst ` set (rects st) \<inter> set todo = {} \<and>
     (\<forall>r \<in> snd ` set (rects st).
        right_edge r \<le> atlas_width st \<and> bottom_edge r \<le> atlas_height st) \<and>
     (atlas_width st = 0 \<or> (\<exists>r \<in> snd ` set (rects st). right_edge r = atlas_width st)) \<and>
     (atlas_height st = 0 \<or> (\<exists>r \<in> snd ` set (rects st). bottom_edge r = atlas_height st)) \<and>
     (row_height st = 0 \<or>
       (\<exists>r \<in> snd ` set (rects st). rect_y r = cur_y st \<and> rect_h r = row_height st))"

lemma tight_fresh: "distinct todo \<Longrightarrow> tight (fresh_pass out) todo"
  by (simp add: tight_def fresh_pass_def)

lemma tight_skip:
  "tight st (k # todo) \<Longrightarrow> tight (st\<lparr>printed := p, placed := q\<rparr>) todo"
  by (auto simp: tight_def)

lemma tight_defer: "tight st (k # todo) \<Longrightarrow> tight st todo"
  by (auto simp: tight_def)

lemma tight_new_row:
  "tight st todo \<Longrightarrow>
   tight (st\<lparr>cur_x := 0, cur_y := cur_y st + row_height st, row_height := 0\<rparr>) todo"
  by (simp add: tight_def)

lemma tight_put:
  assumes "tight st (k # todo)"
  shows "tight (put st k w h) todo"
proof -
  let ?new = "\<lparr>rect_x = cur_x st, rect_y = cur_y st, rect_w = w, rect_h = h\<rparr>"
  from assms have fresh: "k \<notin> fst ` set (rects st)" by (auto simp: tight_def)
  have rs: "rects (put st k w h) = rects st @ [(k, ?new)]"
    by (simp add: put_def Let_def update_fresh [OF fresh])
  have vals: "snd ` set (rects (put st k w h)) = insert ?new (snd ` set (rects st))"
    by (simp add: rs)
  have keys: "fst ` set (rects (put st k w h)) = insert k (fst ` set (rects st))"
    by (simp add: rs)
  have new: "right_edge ?new = cur_x st + w" "bottom_edge ?new = cur_y st + h"
    "rect_y ?new = cur_y st" "rect_h ?new = h"
    by (simp_all add: right_edge_def bottom_edge_def)
  have st': "atlas_width (put st k w h) = max (atlas_width st) (cur_x st + w)"
    "atlas_height (put st k w h) = max (atlas_height st) (cur_y st + max (row_height st) h)"
    "row_height (put st k w h) = max (row_height st) h"
    "cur_y (put st k w h) = cur_y st"
    by (simp_all add: put_def Let_def)
  from assms have 1: "distinct todo" "fst ` set (rects (put st k w h)) \<inter> set todo = {}"
    unfolding keys by (auto simp: tight_def)
  from assms have 2: "\<forall>r \<in> snd ` set (rects (put st k w h)).
      right_edge r \<le> atlas_width (put st k w h) \<and> bottom_edge r \<le> atlas_height (put st k w h)"
    unfolding vals st' tight_def using new by (auto simp: max_def)
  have 3: "atlas_width (put st k w h) = 0 \<or>
      (\<exists>r \<in> snd ` set (rects (put st k w h)). right_edge r = atlas_width (put st k w h))"
  proof (cases "atlas_width st \<le> cur_x st + w")
    case True
    then show ?thesis unfolding vals st' using new by (simp add: max_def)
  next
    case False
    with assms show ?thesis unfolding vals st' tight_def by (auto simp: max_def)
  qed
  have 5: "row_height (put st k w h) = 0 \<or>
      (\<exists>r \<in> snd ` set (rects (put st k w h)).
         rect_y r = cur_y (put st k w h) \<and> rect_h r = row_height (put st k w h))"
  proof (cases "row_height st \<le> h")
    case True
    then show ?thesis unfolding vals st' using new by (simp add: max_def)
  next
    case False
    with assms show ?thesis unfolding vals st' tight_def by (auto simp: max_def)
  qed
  have 4: "atlas_height (put st k w h) = 0 \<or>
      (\<exists>r \<in> snd ` set (rects (put st k w h)). bottom_edge r = atlas_height (put st k w h))"
  proof (cases "atlas_height st \<le> cur_y st + max (row_height st) h")
    case True
    from 5 have "max (row_height st) h = 0 \<or>
      (\<exists>r \<in> snd ` set (rects (put st k w h)).
         rect_y r = cur_y st \<and> rect_h r = max (row_height st) h)"
      unfolding st' .
    then show ?thesis
    proof
      assume "max (row_height st) h = 0"
      with True new show ?thesis unfolding vals st' by (simp add: max_def split: if_splits)
    next
      assume "\<exists>r \<in> snd ` set (rects (put st k w h)).
         rect_y r = cur_y st \<and> rect_h r = max (row_height st) h"
      then obtain r where r: "r \<in> snd ` set (rects (put st k w h))"
        "rect_y r = cur_y st" "rect_h r = max (row_height st) h"
        by blast
      then have "bottom_edge r = cur_y st + max (row_height st) h"
        by (simp add: bottom_edge_def)
      moreover from True have "atlas_height (put st k w h) = cur_y st + max (row_height st) h"
        by (simp add: st')
      ultimately show ?thesis using r(1) by metis
    qed
  next
    case False
    with assms show ?thesis unfolding vals st' tight_def by (auto simp: max_def)
  qed
  from 1 2 3 4 5 show ?thesis unfolding tight_def by blast
qed

lemma tight_body: "tight st (k # todo) \<Longrightarrow> tight (body M st k img) todo"
  unfolding body_def Let_def
  by (auto intro!: tight_put tight_new_row tight_skip intro: tight_defer)

definition capped :: "nat \<Rightarrow> (key \<times> image) list \<Rightarrow> pass_state \<Rightarrow> key list \<Rightarrow> bool" where
  "capped M images st todo \<longleftrightarrow>
     atlas_width st \<le> M \<and> atlas_height st \<le> M \<and> cur_y st + row_height st \<le> M \<and>
     (\<forall>k \<in> set todo. row_height st = 0 \<or> height_of images k \<le> row_height st) \<and>
     sorted_wrt (\<lambda>a b. height_of images b \<le> height_of images a) todo"

lemma capped_fresh:
  "sorted_wrt (\<lambda>a b. height_of images b \<le> height_of images a) todo \<Longrightarrow>
   capped M images (fresh_pass out) todo"
  by (simp add: capped_def fresh_pass_def)

lemma capped_skip:
  "capped M images st (k # todo) \<Longrightarrow> capped M images (st\<lparr>printed := p, placed := q\<rparr>) todo"
  by (auto simp: capped_def)

lemma capped_defer: "capped M images st (k # todo) \<Longrightarrow> capped M images st todo"
  by (auto simp: capped_def)

lemma capped_new_row:
  "capped M images st todo \<Longrightarrow>
   capped M images (st\<lparr>cur_x := 0, cur_y := cur_y st + row_height st, row_height := 0\<rparr>) todo"
  by (simp add: capped_def)

lemma capped_put:
  assumes "capped M images st (k # todo)"
    and "height_of images k = h"
    and "cur_x st + w \<le> M" and "cur_y st + h \<le> M"
  shows "capped M images (put st k w h) todo"
proof -
  from assms(1,2) have rh: "row_height st = 0 \<or> h \<le> row_height st"
    by (auto simp: capped_def)
  with assms(1,4) have y: "cur_y st + max (row_height st) h \<le> M"
    by (auto simp: capped_def max_def)
  from assms(1,2) have later: "\<forall>k' \<in> set todo. height_of images k' \<le> h"
    by (auto simp: capped_def)
  then have "\<forall>k' \<in> set todo. height_of images k' \<le> max (row_height st) h"
    by (auto simp: max_def)
  with assms(1,3) y show ?thesis
    by (simp add: capped_def put_def Let_def)
qed

lemma capped_body:
  assumes "capped M images st (k # todo)" and img: "map_of images k = Some img"
  shows "capped M images (body M st k img) todo"
proof -
  from img have h: "height_of images k = height img" by (simp add: height_of_def)
  let ?st' = "st\<lparr>cur_x := 0, cur_y := cur_y st + row_height st, row_height := 0\<rparr>"
  have row: "capped M images ?st' (k # todo)" by (rule capped_new_row [OF assms(1)])
  show ?thesis
  proof (cases "width img > M \<or> height img > M")
    case True
    then show ?thesis by (simp add: body_def Let_def capped_skip [OF assms(1)])
  next
    case fit: False
    show ?thesis
    proof (cases "cur_x st + width img \<le> M")
      case True
      with fit show ?thesis
        by (simp add: body_def Let_def capped_defer [OF assms(1)] capped_put [OF assms(1) h])
    next
      case False
      with fit show ?thesis
        using capped_defer [OF row] capped_put [OF row h, of "width img"]
        by (simp add: body_def Let_def)
    qed
  qed
qed

definition bounding_box :: "nat \<Rightarrow> atlas \<Rightarrow> bool" where
  "bounding_box M a \<longleftrightarrow>
     width (fst a) = Max (insert 0 (right_edge ` snd ` set (snd a))) \<and>
     height (fst a) = Max (insert 0 (bottom_edge ` snd ` set (snd a))) \<and>
     width (fst a) \<le> M \<and> height (fst a) \<le> M"

lemma Max_insert0:
  fixes m :: nat
  assumes "finite S" and "\<forall>x \<in> S. x \<le> m" and "m = 0 \<or> m \<in> S"
  shows "m = Max (insert 0 S)"
proof -
  have "Max (insert 0 S) = m"
    by (rule Max_eqI) (use assms in auto)
  then show ?thesis by simp
qed

lemma bounding_box_for_loop:
  assumes run: "for_loop M images (fresh_pass out) remaining = Inr st"
    and wf: "well_formed images remaining"
  shows "bounding_box M (atlas_img st, rects st)"
proof -
  from wf have d: "distinct remaining"
    and s: "sorted_wrt (\<lambda>a b. height_of images b \<le> height_of images a) remaining"
    by (simp_all add: well_formed_def)
  have t: "tight st []"
    by (rule for_loop_rule [OF run, where P = tight])
       (simp_all add: tight_fresh [OF d] tight_body)
  have c: "capped M images st []"
    by (rule for_loop_rule [OF run, where P = "capped M images"])
       (simp_all add: capped_fresh [OF s] capped_body)
  from t have le: "\<forall>x \<in> right_edge ` snd ` set (rects st). x \<le> atlas_width st"
    "\<forall>x \<in> bottom_edge ` snd ` set (rects st). x \<le> atlas_height st"
    unfolding tight_def by blast+
  from t have ex: "atlas_width st = 0 \<or> atlas_width st \<in> right_edge ` snd ` set (rects st)"
    "atlas_height st = 0 \<or> atlas_height st \<in> bottom_edge ` snd ` set (rects st)"
    unfolding tight_def by (metis imageI)+
  have "atlas_width st = Max (insert 0 (right_edge ` snd ` set (rects st)))"
    by (rule Max_insert0 [OF _ le(1) ex(1)]) simp
  moreover have "atlas_height st = Max (insert 0 (bottom_edge ` snd ` set (rects st)))"
    by (rule Max_insert0 [OF _ le(2) ex(2)]) simp
  ultimately show ?thesis using c by (simp add: bounding_box_def atlas_img_def capped_def)
qed

text \<open>
  Claim C6. The canvas of every atlas that \<open>pack_atlas\<close> returns is as wide as the largest
  x + w of its rects and as high as the largest y + h (0 for an atlas without rects), and
  neither exceeds the maximum size.
\<close>

theorem pack_atlas_bounding_box:
  assumes "pack_atlas M sprites = Inr (atlases, out)"
    and "(c, rs) \<in> set atlases"
  shows "width c = Max (insert 0 ((\<lambda>(k, r). rect_x r + rect_w r) ` set rs)) \<and>
     height c = Max (insert 0 ((\<lambda>(k, r). rect_y r + rect_h r) ` set rs)) \<and>
     width c \<le> M \<and> height c \<le> M"
proof -
  have "\<forall>a \<in> set atlases. bounding_box M a"
    by (rule pack_atlas_rule [OF assms(1),
          where I = "\<lambda>remaining atlases out. \<forall>a \<in> set atlases. bounding_box M a"])
       (use bounding_box_for_loop in auto)
  with assms(2) have b: "bounding_box M (c, rs)" by blast
  have eq: "right_edge ` snd ` set rs = (\<lambda>(k, r). rect_x r + rect_w r) ` set rs"
    "bottom_edge ` snd ` set rs = (\<lambda>(k, r). rect_y r + rect_h r) ` set rs"
    by (force simp: right_edge_def bottom_edge_def image_iff)+
  from b have "width c = Max (insert 0 (right_edge ` snd ` set rs)) \<and>
     height c = Max (insert 0 (bottom_edge ` snd ` set rs)) \<and>
     width c \<le> M \<and> height c \<le> M"
    unfolding bounding_box_def fst_conv snd_conv .
  then show ?thesis unfolding eq .
qed

theorem pack_atlas_bounding_box_witness:
  "pack_atlas 25 abc = Inr
     ([(\<lparr>width = 20, height = 20, fill = (0, 0, 0, 0), pastes = [(''a'', 0, 0), (''b'', 10, 0)]\<rparr>,
        [(''a'', \<lparr>rect_x = 0, rect_y = 0, rect_w = 10, rect_h = 20\<rparr>),
         (''b'', \<lparr>rect_x = 10, rect_y = 0, rect_w = 10, rect_h = 20\<rparr>)]),
       (\<lparr>width = 10, height = 20, fill = (0, 0, 0, 0), pastes = [(''c'', 0, 0)]\<rparr>,
        [(''c'', \<lparr>rect_x = 0, rect_y = 0, rect_w = 10, rect_h = 20\<rparr>)])], []) \<and>
   (20::nat) = Max (insert 0 ((\<lambda>(k, r). rect_x r + rect_w r) `
      set [(''a'', \<lparr>rect_x = 0, rect_y = 0, rect_w = 10, rect_h = 20\<rparr>),
           (''b'', \<lparr>rect_x = 10, rect_y = 0, rect_w = 10, rect_h = 20\<rparr>)])) \<and>
   (20::nat) = Max (insert 0 ((\<lambda>(k, r). rect_y r + rect_h r) `
      set [(''a'', \<lparr>rect_x = 0, rect_y = 0, rect_w = 10, rect_h = 20\<rparr>),
           (''b'', \<lparr>rect_x = 10, rect_y = 0, rect_w = 10, rect_h = 20\<rparr>)])) \<and>
   (20::nat) \<le> 25"
  using abc_run
    pack_atlas_bounding_box [OF abc_run, of
      "\<lparr>width = 20, height = 20, fill = (0, 0, 0, 0), pastes = [(''a'', 0, 0), (''b'', 10, 0)]\<rparr>"
      "[(''a'', \<lparr>rect_x = 0, rect_y = 0, rect_w = 10, rect_h = 20\<rparr>),
        (''b'', \<lparr>rect_x = 10, rect_y = 0, rect_w = 10, rect_h = 20\<rparr>)]"]
  by simp

section \<open>Sprite sheet builder (sprite\_sheet\_batch.py)\<close>

subsection \<open>Files and paths\<close>

text \<open>
  A \<open>pathlib.Path\<close> is kept in the three parts the tool uses: the directory, the stem and
  the suffix of the file name. An image file is a picture of some size, the same picture
  with black keyed out, or a sheet that \<open>build_sheet\<close> saved. The world is the image files
  by path, the directories the tool asked to create, and the "wrote" lines it printed.
  Argument parsing and the listing of the input directory are inputs of \<open>main\<close>.
\<close>

record path =
  parent :: string
  stem :: string
  suffix :: string

definition name :: "path \<Rightarrow> string" where
  "name p = stem p @ suffix p"

datatype image_file = Picture image | Keyed image_file | SheetFile "(path, int) canvas"

text \<open>What \<open>Image.open\<close> tells about a file: the size of its picture.\<close>

fun file_image :: "image_file \<Rightarrow> image" where
  "file_image (Picture img) = img"
| "file_image (Keyed f) = file_image f"
| "file_image (SheetFile c) = \<lparr>width = width c, height = height c\<rparr>"

record world =
  files :: "path \<rightharpoonup> image_file"
  mkdirs :: "string list"
  wrote :: "(path \<times> nat) list"

subsection \<open>\<open>iter_images\<close> and \<open>convert_to_png\<close>\<close>

definition lower :: "string \<Rightarrow> string" where
  "lower s = map (\<lambda>c. if CHR ''A'' \<le> c \<and> c \<le> CHR ''Z'' then char_of (of_char c + (32::nat)) else c) s"

text \<open>\<open>entries\<close> are the files that \<open>input_dir.iterdir()\<close> yields.\<close>

definition iter_images :: "path list \<Rightarrow> string list \<Rightarrow> path list" where
  "iter_images entries extensions =
     sort_key name [p \<leftarrow> entries. lower (suffix p) \<in> set extensions]"

text \<open>
  The loop of \<open>convert_to_png\<close>: every image is opened, keyed if asked for, and saved under
  its stem with the suffix \<open>.png\<close> in the output directory. An exception leaves the files
  written so far.
\<close>

fun convert_loop ::
  "string \<Rightarrow> bool \<Rightarrow> world \<Rightarrow> path list \<Rightarrow> path list \<Rightarrow> (error + path list) \<times> world" where
  "convert_loop output_dir key_black w converted [] = (Inr converted, w)"
| "convert_loop output_dir key_black w converted (image_path # rest) =
     (let output_path = \<lparr>parent = output_dir, stem = stem image_path, suffix = ''.png''\<rparr>
      in case files w image_path of
           None \<Rightarrow> (Inl FileNotFoundError, w)
         | Some img \<Rightarrow>
             let converted_img = (if key_black then Keyed img else img);
                 w' = w\<lparr>files := (files w)(output_path \<mapsto> converted_img)\<rparr>
             in convert_loop output_dir key_black w' (converted @ [output_path]) rest)"

definition convert_to_png ::
  "path list \<Rightarrow> string \<Rightarrow> bool \<Rightarrow> world \<Rightarrow> (error + path list) \<times> world" where
  "convert_to_png images output_dir key_black w =
     convert_loop output_dir key_black (w\<lparr>mkdirs := mkdirs w @ [output_dir]\<rparr>) [] images"

subsection \<open>\<open>build_sheet\<close>\<close>

text \<open>
  The loop over \<open>enumerate(images)\<close>. Python's \<open>%\<close> and \<open>//\<close> on integers round towards
  minus infinity, as \<open>mod\<close> and \<open>div\<close> on \<open>int\<close> do, and raise for a zero divisor.
\<close>

fun paste_loop ::
  "int \<Rightarrow> int \<Rightarrow> int \<Rightarrow> world \<Rightarrow> (path, int) canvas \<Rightarrow> (nat \<times> path) list
     \<Rightarrow> error + (path, int) canvas" where
  "paste_loop rows tile_w tile_h w sheet [] = Inr sheet"
| "paste_loop rows tile_w tile_h w sheet ((idx, image_path) # rest) =
     (if rows = 0 then Inl ZeroDivisionError
      else
        let row = int idx mod rows;
            col = int idx div rows;
            x = col * tile_w;
            y = row * tile_h
        in case files w image_path of
             None \<Rightarrow> Inl FileNotFoundError
           | Some img \<Rightarrow>
               paste_loop rows tile_w tile_h w
                 (sheet\<lparr>pastes := pastes sheet @ [(image_path, x, y)]\<rparr>) rest)"

text \<open>
  \<open>images[0]\<close> raises on an empty batch and \<open>Image.new\<close> on a negative size. When every
  paste succeeded, the directory of \<open>output_path\<close> is made and the sheet is saved;
  \<open>sheet.save\<close> raises for a canvas without pixels (a width or a height of 0), and then the
  directory is made but no file is written.
\<close>

definition build_sheet ::
  "path list \<Rightarrow> path \<Rightarrow> int \<Rightarrow> int \<Rightarrow> color \<Rightarrow> world \<Rightarrow> (error + unit) \<times> world" where
  "build_sheet images output_path columns rows fill_color w =
     (case images of
        [] \<Rightarrow> (Inl IndexError, w)
      | first # _ \<Rightarrow>
          (case files w first of
             None \<Rightarrow> (Inl FileNotFoundError, w)
           | Some f \<Rightarrow>
               let tile_w = int (width (file_image f));
                   tile_h = int (height (file_image f));
                   sheet_w = columns * tile_w;
                   sheet_h = rows * tile_h
               in if sheet_w < 0 \<or> sheet_h < 0 then (Inl ValueError, w)
                  else
                    case paste_loop rows tile_w tile_h w
                           \<lparr>width = nat sheet_w, height = nat sheet_h, fill = fill_color,
                            pastes = []\<rparr>
                           (enumerate 0 images) of
                      Inl e \<Rightarrow> (Inl e, w)
                    | Inr sheet \<Rightarrow>
                        let w' = w\<lparr>mkdirs := mkdirs w @ [parent output_path]\<rparr>
                        in if width sheet = 0 \<or> height sheet = 0 then (Inl ValueError, w')
                           else
                             (Inr (),
                              w'\<lparr>files := (files w)(output_path \<mapsto> SheetFile sheet)\<rparr>)))"

subsection \<open>The layout of a sheet\<close>

text \<open>
  The pixel origin the specification gives to the image at ordinal \<open>idx\<close>:
  row \<open>idx % rows\<close>, column \<open>idx // rows\<close>, origin \<open>(col * tile_w, row * tile_h)\<close>.
\<close>

definition grid_origin :: "int \<Rightarrow> int \<Rightarrow> int \<Rightarrow> nat \<Rightarrow> int \<times> int" where
  "grid_origin rows tile_w tile_h idx =
     ((int idx div rows) * tile_w, (int idx mod rows) * tile_h)"

lemma paste_loop_layout:
  assumes "rows \<noteq> 0" and "\<forall>p \<in> snd ` set xs. files w p \<noteq> None"
  shows "paste_loop rows tile_w tile_h w sheet xs =
     Inr (sheet\<lparr>pastes := pastes sheet @
            map (\<lambda>(idx, p). (p, grid_origin rows tile_w tile_h idx)) xs\<rparr>)"
  using assms(2)
proof (induction xs arbitrary: sheet)
  case Nil
  then show ?case by simp
next
  case (Cons ip xs)
  obtain idx p where ip: "ip = (idx, p)" by (cases ip)
  with Cons.prems obtain f where f: "files w p = Some f" by auto
  from Cons.prems have "\<forall>p \<in> snd ` set xs. files w p \<noteq> None" by simp
  from Cons.IH [OF this] assms(1) ip f show ?case
    by (simp add: grid_origin_def Let_def)
qed

text \<open>
  Claim C7. For a non-empty batch of existing image files, positive numbers of rows and
  columns and a first image with pixels, \<open>build_sheet\<close> saves a canvas of
  \<open>columns * tile_w\<close> by \<open>rows * tile_h\<close> pixels, filled with the fill colour, on which the
  image at ordinal \<open>idx\<close> is pasted at \<open>(idx // rows * tile_w, idx % rows * tile_h)\<close>, where
  the tile size is the size of the first image. With five images, two columns and three
  rows the origins are (0,0), (0,h), (0,2h), (w,0), (w,h) on a canvas of 2w by 3h.
\<close>

theorem build_sheet_layout:
  assumes "images \<noteq> []" and "0 < rows" and "0 < columns"
    and "\<forall>p \<in> set images. files w p \<noteq> None"
    and "files w (hd images) = Some first"
    and "tile_w = int (width (file_image first))"
    and "tile_h = int (height (file_image first))"
    and "0 < tile_w" and "0 < tile_h"
  shows "\<exists>sheet.
     build_sheet images output_path columns rows fill_color w =
       (Inr (), w\<lparr>mkdirs := mkdirs w @ [parent output_path],
                  files := (files w)(output_path \<mapsto> SheetFile sheet)\<rparr>) \<and>
     int (width sheet) = columns * tile_w \<and> int (height sheet) = rows * tile_h \<and>
     fill sheet = fill_color \<and>
     length (pastes sheet) = length images \<and>
     (\<forall>idx < length images.
        pastes sheet ! idx =
          (images ! idx, (int idx div rows) * tile_w, (int idx mod rows) * tile_h)) \<and>
     (length images = 5 \<and> columns = 2 \<and> rows = 3 \<longrightarrow>
        map snd (pastes sheet) =
          [(0, 0), (0, tile_h), (0, 2 * tile_h), (tile_w, 0), (tile_w, tile_h)] \<and>
        int (width sheet) = 2 * tile_w \<and> int (height sheet) = 3 * tile_h)"
proof -
  let ?sheet = "\<lparr>width = nat (columns * tile_w), height = nat (rows * tile_h),
      fill = fill_color,
      pastes = map (\<lambda>(idx, p). (p, grid_origin rows tile_w tile_h idx)) (enumerate 0 images)\<rparr>"
  from assms(1) obtain p ps where images: "images = p # ps" by (cases images) auto
  from assms(2,3,8,9) have size: "0 < columns * tile_w" "0 < rows * tile_h" by simp_all
  from assms(4) have ex: "\<forall>p \<in> snd ` set (enumerate 0 images). files w p \<noteq> None"
    by (auto simp: in_set_enumerate_eq)
  from assms(2) have "rows \<noteq> 0" by simp
  note loop = paste_loop_layout [OF this ex, of tile_w tile_h]
  have run: "build_sheet images output_path columns rows fill_color w =
       (Inr (), w\<lparr>mkdirs := mkdirs w @ [parent output_path],
                  files := (files w)(output_path \<mapsto> SheetFile ?sheet)\<rparr>)"
    using assms(5) size loop unfolding assms(6,7) images
    by (simp add: build_sheet_def Let_def not_less [symmetric] del: enumerate_simps)
  have nth: "pastes ?sheet ! idx =
      (images ! idx, (int idx div rows) * tile_w, (int idx mod rows) * tile_h)"
    if "idx < length images" for idx
    using that by (simp add: nth_enumerate_eq grid_origin_def)
  have five: "map snd (pastes ?sheet) =
      [(0, 0), (0, tile_h), (0, 2 * tile_h), (tile_w, 0), (tile_w, tile_h)]"
    if "length images = 5" "rows = 3"
  proof -
    from that(1) obtain a b c d e where "images = [a, b, c, d, e]"
      by (auto simp: length_Suc_conv eval_nat_numeral)
    with that(2) show ?thesis by (simp add: grid_origin_def)
  qed
  from assms(8,9) have "0 \<le> tile_w" "0 \<le> tile_h" by simp_all
  with run nth five size show ?thesis
    by (intro exI [of _ ?sheet]) simp
qed

text \<open>Five converted images of 16 by 8 pixels.\<close>

definition tile :: "string \<Rightarrow> path" where
  "tile s = \<lparr>parent = ''converted_png'', stem = s, suffix = ''.png''\<rparr>"

definition five :: world where
  "five =
     \<lparr>files = [tile ''0'' \<mapsto> Picture \<lparr>width = 16, height = 8\<rparr>,
               tile ''1'' \<mapsto> Picture \<lparr>width = 16, height = 8\<rparr>,
               tile ''2'' \<mapsto> Picture \<lparr>width = 16, height = 8\<rparr>,
               tile ''3'' \<mapsto> Picture \<lparr>width = 16, height = 8\<rparr>,
               tile ''4'' \<mapsto> Picture \<lparr>width = 16, height = 8\<rparr>],
      mkdirs = [], wrote = []\<rparr>"

theorem build_sheet_layout_witness:
  "\<exists>sheet.
     build_sheet [tile ''0'', tile ''1'', tile ''2'', tile ''3'', tile ''4'']
       \<lparr>parent = ''atlas'', stem = ''spritesheet_000'', suffix = ''.png''\<rparr> 2 3 (0, 0, 0, 0) five =
       (Inr (), five\<lparr>mkdirs := [''atlas''],
              files := (files five)
                (\<lparr>parent = ''atlas'', stem = ''spritesheet_000'', suffix = ''.png''\<rparr>
                   \<mapsto> SheetFile sheet)\<rparr>) \<and>
     width sheet = 32 \<and> height sheet = 24 \<and> fill sheet = (0, 0, 0, 0) \<and>
     pastes sheet ! 3 = (tile ''3'', 16, 0) \<and>
     map snd (pastes sheet) = [(0, 0), (0, 8), (0, 16), (16, 0), (16, 8)]"
proof -
  let ?images = "[tile ''0'', tile ''1'', tile ''2'', tile ''3'', tile ''4'']"
  have 1: "?images \<noteq> []" and 2: "(0::int) < 3" and 3: "(0::int) < 2"
    and 8: "(0::int) < 16" and 9: "(0::int) < 8" by simp_all
  have 4: "\<forall>p \<in> set ?images. files five p \<noteq> None"
    by (simp add: five_def tile_def)
  have 5: "files five (hd ?images) = Some (Picture \<lparr>width = 16, height = 8\<rparr>)"
    by (simp add: five_def tile_def)
  have 6: "(16::int) = int (width (file_image (Picture \<lparr>width = 16, height = 8\<rparr>)))"
    and 7: "(8::int) = int (height (file_image (Picture \<lparr>width = 16, height = 8\<rparr>)))"
    by simp_all
  from build_sheet_layout [OF 1 2 3 4 5 6 7 8 9,
      of "\<lparr>parent = ''atlas'', stem = ''spritesheet_000'', suffix = ''.png''\<rparr>" "(0, 0, 0, 0)"]
  obtain sheet where s:
    "build_sheet ?images \<lparr>parent = ''atlas'', stem = ''spritesheet_000'', suffix = ''.png''\<rparr>
       2 3 (0, 0, 0, 0) five =
       (Inr (), five\<lparr>mkdirs := mkdirs five @ [parent \<lparr>parent = ''atlas'', stem = ''spritesheet_000'', suffix = ''.png''\<rparr>],
              files := (files five)
                (\<lparr>parent = ''atlas'', stem = ''spritesheet_000'', suffix = ''.png''\<rparr>
                   \<mapsto> SheetFile sheet)\<rparr>)"
    "int (width sheet) = 2 * 16" "int (height sheet) = 3 * 8" "fill sheet = (0, 0, 0, 0)"
    "pastes sheet ! 3 = (?images ! 3, (int 3 div 3) * 16, (int 3 mod 3) * 8)"
    "map snd (pastes sheet) = [(0, 0), (0, 8), (0, 2 * 8), (16, 0), (16, 8)]"
    by force
  then show ?thesis
    by (intro exI [of _ sheet]) (simp add: five_def)
qed

text \<open>With no column the canvas has no pixels: the directory is made and the save raises.\<close>

lemma build_sheet_empty_canvas:
  "build_sheet [tile ''0'']
     \<lparr>parent = ''atlas'', stem = ''spritesheet_000'', suffix = ''.png''\<rparr> 0 3 (0, 0, 0, 0) five =
     (Inl ValueError, five\<lparr>mkdirs := [''atlas'']\<rparr>)"
  by (simp add: build_sheet_def five_def tile_def Let_def)

subsection \<open>\<open>main\<close>\<close>

text \<open>
  The parsed arguments: \<open>extensions\<close> is the set built from \<open>--ext\<close>, and \<open>convert_dir\<close>
  the convert directory after its default, \<open><input_dir>/converted_png\<close>, was applied.
\<close>

record args =
  input_dir :: string
  output_dir :: string
  batch_size :: int
  columns :: int
  rows :: int
  extensions :: "string list"
  convert_dir :: string
  key_out_black :: bool

datatype exit_message = NotADirectory string | NoImagesFound string | GridTooSmall

datatype outcome = Returned | SystemExit exit_message | Uncaught error

text \<open>\<open>xs[start:end]\<close> for any two integers.\<close>

definition slice :: "'a list \<Rightarrow> int \<Rightarrow> int \<Rightarrow> 'a list" where
  "slice xs start end =
     (let n = int (length xs);
          s = (if start < 0 then max (start + n) 0 else min start n);
          e = (if end < 0 then max (end + n) 0 else min end n)
      in drop (nat s) (take (nat e) xs))"

text \<open>\<open>f"{sheet_idx:03d}"\<close>: the decimal digits, padded with zeros to three.\<close>

fun digits :: "nat \<Rightarrow> string" where
  "digits n = (if n < 10 then [char_of (48 + n)] else digits (n div 10) @ [char_of (48 + n mod 10)])"

definition pad3 :: "nat \<Rightarrow> string" where
  "pad3 n = replicate (3 - length (digits n)) CHR ''0'' @ digits n"

text \<open>The loop over \<open>range(sheet_count)\<close>; an exception of \<open>build_sheet\<close> ends the run.\<close>

fun sheets_loop :: "args \<Rightarrow> path list \<Rightarrow> world \<Rightarrow> nat list \<Rightarrow> outcome \<times> world" where
  "sheets_loop a converted_images w [] = (Returned, w)"
| "sheets_loop a converted_images w (sheet_idx # rest) =
     (let start = int sheet_idx * batch_size a;
          end = start + batch_size a;
          batch = slice converted_images start end
      in if batch = [] then sheets_loop a converted_images w rest
         else
           let output_path =
                 \<lparr>parent = output_dir a, stem = ''spritesheet_'' @ pad3 sheet_idx, suffix = ''.png''\<rparr>
           in case build_sheet batch output_path (columns a) (rows a) (0, 0, 0, 0) w of
                (Inl e, w') \<Rightarrow> (Uncaught e, w')
              | (Inr _, w') \<Rightarrow>
                  sheets_loop a converted_images
                    (w'\<lparr>wrote := wrote w' @ [(output_path, length batch)]\<rparr>) rest)"

text \<open>
  \<open>main\<close> after the arguments are parsed. \<open>math.ceil(n / b)\<close> is the ceiling of the
  quotient, \<open>- ((- n) div b)\<close>, and raises for \<open>b = 0\<close>.
\<close>

definition main :: "args \<Rightarrow> bool \<Rightarrow> path list \<Rightarrow> world \<Rightarrow> outcome \<times> world" where
  "main a input_is_dir entries w =
     (if \<not> input_is_dir then (SystemExit (NotADirectory (input_dir a)), w)
      else
        let images = iter_images entries (extensions a)
        in if images = [] then (SystemExit (NoImagesFound (input_dir a)), w)
           else
             case convert_to_png images (convert_dir a) (key_out_black a) w of
               (Inl e, w1) \<Rightarrow> (Uncaught e, w1)
             | (Inr converted_images, w1) \<Rightarrow>
                 if columns a * rows a < batch_size a then (SystemExit GridTooSmall, w1)
                 else if batch_size a = 0 then (Uncaught ZeroDivisionError, w1)
                 else
                   let sheet_count = - ((- int (length converted_images)) div batch_size a)
                   in sheets_loop a converted_images w1 [0 ..< nat sheet_count])"

subsection \<open>A grid too small for the batch\<close>









section \<open>The manifest (tools/pack\_atlases.py)\<close>

subsection \<open>\<open>pack_category\<close>\<close>

text \<open>
  The value of a manifest key is JSON that the tool does not look at, or the entry
  \<open>pack_category\<close> returns: \<open>{"file": f, "sprites": rects}\<close> for one atlas, and
  \<open>{"files": fs, "sprites": all_sprites}\<close> with the index of the atlas added to every rect
  otherwise.
\<close>

datatype manifest_entry =
    SingleAtlas string "(key \<times> rect) list"
  | MultiAtlas "string list" "(key \<times> rect \<times> nat) list"

datatype 'j manifest_value = Json 'j | AtlasInfo manifest_entry

type_synonym 'j manifest = "(string \<times> 'j manifest_value) list"

text \<open>The atlas images saved so far, by file name, and standard output.\<close>

type_synonym effects = "(string \<times> (key, nat) canvas) list \<times> line list"

text \<open>
  \<open>collect_sprites\<close> fills a dict from the sorted \<open>*.png\<close> files of the directory, given
  here by stem and image.
\<close>

definition collect_sprites :: "(key \<times> image) list \<Rightarrow> (key \<times> image) list" where
  "collect_sprites pngs = fold (\<lambda>(k, png) sprites. AList.update k png sprites) pngs []"

text \<open>
  The loop over \<open>enumerate(atlases)\<close> of the branch for several atlases.
  \<open>atlas_img.save\<close> raises for an atlas image without pixels (a width or a height of 0),
  before the line of that atlas is printed.
\<close>

fun several ::
  "string \<Rightarrow> (nat \<times> atlas) list \<Rightarrow> (key \<times> rect \<times> nat) list \<Rightarrow> string list \<Rightarrow> effects
     \<Rightarrow> (error + manifest_entry) \<times> effects" where
  "several category [] all_sprites names (saved, out) =
     (Inr (MultiAtlas names all_sprites), (saved, out))"
| "several category ((i, (img, rs)) # rest) all_sprites names (saved, out) =
     (let atlas_filename = category @ ''_atlas_'' @ digits i @ ''.png''
      in if width img = 0 \<or> height img = 0 then (Inl ValueError, (saved, out))
         else
           several category rest
             (fold (\<lambda>(k, r) acc. AList.update k (r, i) acc) rs all_sprites)
             (names @ [''sprites/'' @ atlas_filename])
             (saved @ [(atlas_filename, img)],
              out @ [Arrow atlas_filename (width img) (height img) (length rs)]))"

text \<open>
  \<open>dirs category\<close> is \<open>None\<close> when the directory of the category does not exist, and its
  sorted \<open>*.png\<close> files otherwise. A category whose sprites are all oversize has one atlas
  of 0 by 0 pixels, and its save raises.
\<close>

definition pack_category ::
  "(string \<Rightarrow> (key \<times> image) list option) \<Rightarrow> string \<Rightarrow> effects
     \<Rightarrow> (error + manifest_entry option) \<times> effects" where
  "pack_category dirs category eff =
     (case dirs category of
        None \<Rightarrow> (Inr None, (fst eff, snd eff @ [SkippingNotFound category]))
      | Some pngs \<Rightarrow>
          let sprites = collect_sprites pngs
          in if sprites = [] then (Inr None, (fst eff, snd eff @ [SkippingNoSprites category]))
             else
               let out = snd eff @ [Packing (length sprites) category]
               in case pack_atlas MAX_ATLAS_SIZE sprites of
                    Inl e \<Rightarrow> (Inl e, (fst eff, out))
                  | Inr (atlases, lines) \<Rightarrow>
                      (case atlases of
                         [(img, rs)] \<Rightarrow>
                           let atlas_filename = category @ ''_atlas.png''
                           in if width img = 0 \<or> height img = 0
                              then (Inl ValueError, (fst eff, out @ lines))
                              else
                                (Inr (Some (SingleAtlas (''sprites/'' @ atlas_filename) rs)),
                                 (fst eff @ [(atlas_filename, img)],
                                  out @ lines @
                                  [Arrow atlas_filename (width img) (height img) (length rs)]))
                       | _ \<Rightarrow>
                           (case several category (enumerate 0 atlases) [] []
                                   (fst eff, out @ lines) of
                              (Inl e, eff') \<Rightarrow> (Inl e, eff')
                            | (Inr info, eff') \<Rightarrow> (Inr (Some info), eff'))))"

subsection \<open>\<open>main\<close> of the packer\<close>

text \<open>The loop over the categories: a category that returned an entry sets its key.\<close>

fun pack_categories ::
  "(string \<Rightarrow> (key \<times> image) list option) \<Rightarrow> string list \<Rightarrow> 'j manifest \<Rightarrow> effects
     \<Rightarrow> (error + 'j manifest) \<times> effects" where
  "pack_categories dirs [] manifest eff = (Inr manifest, eff)"
| "pack_categories dirs (category # rest) manifest eff =
     (case pack_category dirs category eff of
        (Inl e, eff') \<Rightarrow> (Inl e, eff')
      | (Inr None, eff') \<Rightarrow> pack_categories dirs rest manifest eff'
      | (Inr (Some atlas_info), eff') \<Rightarrow>
          pack_categories dirs rest
            (AList.update (category @ ''_atlas'') (AtlasInfo atlas_info) manifest) eff')"

definition categories_to_pack :: "string list" where
  "categories_to_pack = [''objects'', ''walls'', ''inventory'']"

text \<open>
  The manifest that \<open>json.load\<close> read is an argument; the result is the manifest that is
  written back, or the exception that ended the run before anything was written.
\<close>

definition pack_atlases_main ::
  "(string \<Rightarrow> (key \<times> image) list option) \<Rightarrow> 'j manifest \<Rightarrow> (error + 'j manifest) \<times> effects" where
  "pack_atlases_main dirs manifest =
     (case pack_categories dirs categories_to_pack manifest
             ([], [Text ''Sprite Atlas Packer'', Text (replicate 40 CHR ''='')]) of
        (Inl e, eff) \<Rightarrow> (Inl e, eff)
      | (Inr manifest', (saved, out)) \<Rightarrow>
          (Inr manifest',
           (saved, out @ [Text [], Text ''Done! Updated sprite_manifest.json with atlas info.''])))"

subsection \<open>Only the atlas keys of packed categories change\<close>

lemma update_filter_other:
  "\<not> P k \<Longrightarrow> [(k', v') \<leftarrow> AList.update k v al. P k'] = [(k', v') \<leftarrow> al. P k']"
  by (induction al) auto

lemma pack_category_Some:
  assumes "pack_category dirs category eff = (Inr (Some info), eff')"
  shows "\<exists>pngs. dirs category = Some pngs \<and> pngs \<noteq> []"
proof (cases "dirs category")
  case None
  with assms show ?thesis by (simp add: pack_category_def)
next
  case (Some pngs)
  have "pngs \<noteq> []"
  proof
    assume "pngs = []"
    with assms Some show False by (simp add: pack_category_def collect_sprites_def)
  qed
  with Some show ?thesis by simp
qed

text \<open>The keys that a run over the given categories may set.\<close>

definition atlas_keys :: "(string \<Rightarrow> (key \<times> image) list option) \<Rightarrow> string list \<Rightarrow> string set" where
  "atlas_keys dirs categories =
     {category @ ''_atlas'' | category.
        category \<in> set categories \<and> (\<exists>pngs. dirs category = Some pngs \<and> pngs \<noteq> [])}"

lemma atlas_keys_Cons:
  "atlas_keys dirs rest \<subseteq> atlas_keys dirs (category # rest)"
  by (auto simp: atlas_keys_def)

lemma pack_categories_frame:
  assumes "pack_categories dirs categories manifest eff = (Inr manifest', eff')"
    and "atlas_keys dirs categories \<subseteq> K"
  shows "[(k, v) \<leftarrow> manifest'. k \<notin> K] = [(k, v) \<leftarrow> manifest. k \<notin> K]"
  using assms
proof (induction categories arbitrary: manifest eff)
  case Nil
  then show ?case by simp
next
  case (Cons category rest)
  obtain r eff1 where pc: "pack_category dirs category eff = (r, eff1)"
    by (cases "pack_category dirs category eff")
  from Cons.prems(2) have K: "atlas_keys dirs rest \<subseteq> K"
    using atlas_keys_Cons by blast
  show ?case
  proof (cases r)
    case (Inl e)
    with Cons.prems(1) pc show ?thesis by simp
  next
    case (Inr atlas_info)
    show ?thesis
    proof (cases atlas_info)
      case None
      with Cons.prems(1) pc Inr
      have "pack_categories dirs rest manifest eff1 = (Inr manifest', eff')" by simp
      from Cons.IH [OF this K] show ?thesis .
    next
      case (Some info)
      with Cons.prems(1) pc Inr
      have run: "pack_categories dirs rest
          (AList.update (category @ ''_atlas'') (AtlasInfo info) manifest) eff1 = (Inr manifest', eff')"
        by simp
      from pc Inr Some have "\<exists>pngs. dirs category = Some pngs \<and> pngs \<noteq> []"
        by (intro pack_category_Some [of dirs category eff info eff1]) simp
      then have "category @ ''_atlas'' \<in> atlas_keys dirs (category # rest)"
        by (auto simp: atlas_keys_def)
      with Cons.prems(2) have "\<not> (category @ ''_atlas'' \<notin> K)" by blast
      from update_filter_other [of "\<lambda>k. k \<notin> K", OF this] Cons.IH [OF run K]
      show ?thesis by simp
    qed
  qed
qed

text \<open>
  Claim C9. Let K be the keys \<open><category>_atlas\<close> of the processed categories whose
  directory exists and holds a sprite. The manifest that is written back has, outside K,
  the same entries in the same order as the manifest that was read; so the value of every
  other key is as before, a key that was absent stays absent, and a category with a missing
  directory or without sprites changes nothing. This holds for every list of categories,
  and for \<open>main\<close> with its three.
\<close>

theorem manifest_other_keys_preserved:
  "(pack_categories dirs categories manifest eff = (Inr manifest', eff') \<longrightarrow>
      [(k, v) \<leftarrow> manifest'. k \<notin> atlas_keys dirs categories] =
      [(k, v) \<leftarrow> manifest. k \<notin> atlas_keys dirs categories] \<and>
      (\<forall>k. k \<notin> atlas_keys dirs categories \<longrightarrow> map_of manifest' k = map_of manifest k)) \<and>
   (pack_atlases_main dirs manifest = (Inr written, eff') \<longrightarrow>
      [(k, v) \<leftarrow> written. k \<notin> atlas_keys dirs categories_to_pack] =
      [(k, v) \<leftarrow> manifest. k \<notin> atlas_keys dirs categories_to_pack] \<and>
      (\<forall>k. k \<notin> atlas_keys dirs categories_to_pack \<longrightarrow> map_of written k = map_of manifest k))"
proof -
  have lookup: "map_of m' k = map_of m k"
    if "[(k, v) \<leftarrow> m'. k \<notin> K] = [(k, v) \<leftarrow> m. k \<notin> K]" "k \<notin> K"
    for m' m :: "'a manifest" and k K
  proof -
    have "map_of m k = map_of [(k, v) \<leftarrow> m. k \<notin> K] k" for m :: "'a manifest"
      using that(2) by (induction m) auto
    with that(1) show ?thesis by metis
  qed
  have loop: "[(k, v) \<leftarrow> m'. k \<notin> atlas_keys dirs cs] = [(k, v) \<leftarrow> manifest. k \<notin> atlas_keys dirs cs]"
    if "pack_categories dirs cs manifest e = (Inr m', e')" for cs m' e e'
    by (rule pack_categories_frame [OF that]) simp
  have main: "\<exists>e e'. pack_categories dirs categories_to_pack manifest e = (Inr written, e')"
    if "pack_atlases_main dirs manifest = (Inr written, eff')"
    using that by (auto simp: pack_atlases_main_def split: prod.splits sum.splits)
  show ?thesis using loop lookup main by blast
qed

text \<open>
  A run in which only the objects directory holds a sprite: the walls directory is missing
  and the inventory directory is empty.
\<close>

definition shop :: "string \<Rightarrow> (key \<times> image) list option" where
  "shop c = (if c = ''objects'' then Some [(''crate'', \<lparr>width = 10, height = 20\<rparr>)]
             else if c = ''inventory'' then Some [] else None)"

definition old_manifest :: "nat manifest" where
  "old_manifest = [(''version'', Json 1), (''objects_atlas'', Json 0), (''tiles'', Json 2)]"

lemma shop_run:
  "pack_atlases_main shop old_manifest =
     (Inr [(''version'', Json 1),
           (''objects_atlas'',
            AtlasInfo (SingleAtlas ''sprites/objects_atlas.png''
              [(''crate'', \<lparr>rect_x = 0, rect_y = 0, rect_w = 10, rect_h = 20\<rparr>)])),
           (''tiles'', Json 2)],
      ([(''objects_atlas.png'',
         \<lparr>width = 10, height = 20, fill = (0, 0, 0, 0), pastes = [(''crate'', 0, 0)]\<rparr>)],
       [Text ''Sprite Atlas Packer'', Text (replicate 40 CHR ''=''), Packing 1 ''objects'',
        Arrow ''objects_atlas.png'' 10 20 1, SkippingNotFound ''walls'',
        SkippingNoSprites ''inventory'', Text [],
        Text ''Done! Updated sprite_manifest.json with atlas info.'']))"
  by (simp add: pack_atlases_main_def categories_to_pack_def pack_category_def shop_def
      old_manifest_def collect_sprites_def MAX_ATLAS_SIZE_def pack_atlas_def load_images_def
      sorted_keys_def sort_rank_def fresh_pass_def body_def put_def atlas_img_def Let_def)

theorem manifest_other_keys_preserved_witness:
  "''tiles'' \<notin> atlas_keys shop categories_to_pack \<and>
   ''walls_atlas'' \<notin> atlas_keys shop categories_to_pack \<and>
   map_of [(''version'', Json 1),
           (''objects_atlas'',
            AtlasInfo (SingleAtlas ''sprites/objects_atlas.png''
              [(''crate'', \<lparr>rect_x = 0, rect_y = 0, rect_w = 10, rect_h = 20\<rparr>)])),
           (''tiles'', Json (2::nat))] ''tiles'' = map_of old_manifest ''tiles'' \<and>
   map_of [(''version'', Json 1),
           (''objects_atlas'',
            AtlasInfo (SingleAtlas ''sprites/objects_atlas.png''
              [(''crate'', \<lparr>rect_x = 0, rect_y = 0, rect_w = 10, rect_h = 20\<rparr>)])),
           (''tiles'', Json (2::nat))] ''walls_atlas'' = map_of old_manifest ''walls_atlas''"
proof -
  have 1: "''tiles'' \<notin> atlas_keys shop categories_to_pack"
    and 2: "''walls_atlas'' \<notin> atlas_keys shop categories_to_pack"
    by (auto simp: atlas_keys_def categories_to_pack_def shop_def)
  note keep = manifest_other_keys_preserved [THEN conjunct2, THEN mp, OF shop_run,
      THEN conjunct2, rule_format]
  from keep [OF 1] keep [OF 2] 1 2 show ?thesis by blast
qed

text \<open>
  A category whose only sprite is oversize: the save of its empty atlas raises, and the run
  ends before the manifest is written.
\<close>

definition oversize_only :: "string \<Rightarrow> (key \<times> image) list option" where
  "oversize_only c = (if c = ''objects'' then Some [(''sky'', \<lparr>width = 5000, height = 10\<rparr>)] else None)"

lemma oversize_only_run:
  "pack_atlases_main oversize_only old_manifest =
     (Inl ValueError,
      ([], [Text ''Sprite Atlas Packer'', Text (replicate 40 CHR ''=''), Packing 1 ''objects'',
            WARNING ''sky'' 5000 10]))"
  by (simp add: pack_atlases_main_def categories_to_pack_def pack_category_def oversize_only_def
      old_manifest_def collect_sprites_def MAX_ATLAS_SIZE_def pack_atlas_def load_images_def
      sorted_keys_def sort_rank_def fresh_pass_def body_def put_def atlas_img_def Let_def)

end
